theory Spec2Isabelle
  imports Main
begin

section \<open>Connect 4: the board, the rules, the heuristic and the search\<close>

text \<open>
  A shallow embedding of \<^verbatim>\<open>src/connect4.py\<close>: the board helpers, the win and
  terminal tests, the heuristic and the minimax search with alpha-beta pruning.
  Python integers are \<^typ>\<open>int\<close>. The board is the 6 x 7 numpy array, a list of rows,
  each row a list of cells; row 0 is the bottom row.
\<close>

subsection \<open>Configuration\<close>

definition ROW_COUNT :: int where [simp]: "ROW_COUNT = 6"
definition COLUMN_COUNT :: int where [simp]: "COLUMN_COUNT = 7"

definition EMPTY :: int where [simp]: "EMPTY = 0"
definition PLAYER :: int where [simp]: "PLAYER = 1"
definition COMPUTER :: int where [simp]: "COMPUTER = 2"

definition AI_DEPTH :: nat where [simp]: "AI_DEPTH = 5"

text \<open>Python's \<^verbatim>\<open>range(n)\<close> and \<^verbatim>\<open>range(a, b)\<close>.\<close>

definition py_range :: "int \<Rightarrow> int list" where
  "py_range n = [0..n - 1]"

definition py_range_from :: "int \<Rightarrow> int \<Rightarrow> int list" where
  "py_range_from a b = [a..b - 1]"

subsection \<open>Board helper functions\<close>

type_synonym board = "int list list"

text \<open>
  The shape of the array. Every read and write of the source stays inside it (numpy
  raises IndexError outside, and a negative index counts from the end; neither occurs
  on a call with a row below 6 and a column below 7), so \<open>cell\<close> and \<open>set_cell\<close>
  are used at such indices only, and the theorems assume a board of this shape.
\<close>

definition wf_board :: "board \<Rightarrow> bool" where
  "wf_board board =
     (length board = nat ROW_COUNT \<and> list_all (\<lambda>row. length row = nat COLUMN_COUNT) board)"

definition cell :: "board \<Rightarrow> int \<Rightarrow> int \<Rightarrow> int" where
  "cell board r c = board ! nat r ! nat c"

definition set_cell :: "board \<Rightarrow> int \<Rightarrow> int \<Rightarrow> int \<Rightarrow> board" where
  "set_cell board r c v = board[nat r := (board ! nat r)[nat c := v]]"

definition create_board :: board where
  "create_board = replicate (nat ROW_COUNT) (replicate (nat COLUMN_COUNT) 0)"

definition check_available_row :: "board \<Rightarrow> int \<Rightarrow> int option" where
  "check_available_row board column =
     (if column < 0 \<or> column \<ge> COLUMN_COUNT then None
      else find (\<lambda>r. cell board r column = EMPTY) (py_range ROW_COUNT))"

definition valid_locations :: "board \<Rightarrow> int list" where
  "valid_locations board =
     filter (\<lambda>c. check_available_row board c \<noteq> None) (py_range COLUMN_COUNT)"

text \<open>
  \<open>place_piece\<close> writes into the array it is given; the model returns the array after
  the call together with the returned flag.
\<close>

definition place_piece :: "board \<Rightarrow> int \<Rightarrow> int option \<Rightarrow> int \<Rightarrow> board \<times> bool" where
  "place_piece board column row player_value =
     (case row of
        None \<Rightarrow> (board, False)
      | Some r \<Rightarrow> (set_cell board r column player_value, True))"

definition board_full :: "board \<Rightarrow> bool" where
  "board_full board = (\<not> list_ex (\<lambda>row. list_ex (\<lambda>x. x = EMPTY) row) board)"

definition check_win :: "board \<Rightarrow> int \<Rightarrow> int \<Rightarrow> bool" where
  "check_win board piece_row piece_column =
     (let piece = cell board piece_row piece_column in
      if list_ex (\<lambda>c. list_all (\<lambda>i. cell board piece_row (c + i) = piece) (py_range 4))
           (py_range (COLUMN_COUNT - 3)) then True
      else if list_ex (\<lambda>r. list_all (\<lambda>i. cell board (r + i) piece_column = piece) (py_range 4))
           (py_range (ROW_COUNT - 3)) then True
      else if list_ex (\<lambda>r. list_ex (\<lambda>c.
                list_all (\<lambda>i. cell board (r + i) (c + i) = piece) (py_range 4))
              (py_range (COLUMN_COUNT - 3)))
           (py_range (ROW_COUNT - 3)) then True
      else if list_ex (\<lambda>r. list_ex (\<lambda>c.
                list_all (\<lambda>i. cell board (r - i) (c + i) = piece) (py_range 4))
              (py_range (COLUMN_COUNT - 3)))
           (py_range_from 3 ROW_COUNT) then True
      else False)"

definition check_any_win :: "board \<Rightarrow> int \<Rightarrow> bool" where
  "check_any_win board player_value =
     list_ex (\<lambda>r. list_ex (\<lambda>c. cell board r c = player_value \<and> check_win board r c)
                (py_range COLUMN_COUNT))
       (py_range ROW_COUNT)"

text \<open>The pair \<open>(game_over, winner)\<close>; the winner \<open>None\<close> is Python's \<^verbatim>\<open>None\<close>.\<close>

definition is_terminal :: "board \<Rightarrow> bool \<times> int option" where
  "is_terminal board =
     (if check_any_win board PLAYER then (True, Some PLAYER)
      else if check_any_win board COMPUTER then (True, Some COMPUTER)
      else if board_full board then (True, None)
      else (False, None))"

subsection \<open>Heuristic\<close>

definition peek_score :: "int list \<Rightarrow> int \<Rightarrow> int" where
  "peek_score window player_value =
     (let opp = (if player_value = COMPUTER then PLAYER else COMPUTER);
          score = 0;
          score =
            (if count_list window player_value = 4 then score + 100000
             else if count_list window player_value = 3 \<and> count_list window EMPTY = 1
               then score + 100
             else if count_list window player_value = 2 \<and> count_list window EMPTY = 2
               then score + 10
             else score);
          score =
            (if count_list window opp = 3 \<and> count_list window EMPTY = 1 then score - 120
             else if count_list window opp = 2 \<and> count_list window EMPTY = 2 then score - 15
             else score)
      in score)"

text \<open>The slices \<^verbatim>\<open>board[r, :]\<close>, \<^verbatim>\<open>board[:, c]\<close> and \<^verbatim>\<open>xs[a:b]\<close>.\<close>

definition row_of :: "board \<Rightarrow> int \<Rightarrow> int list" where
  "row_of board r = board ! nat r"

definition column_of :: "board \<Rightarrow> int \<Rightarrow> int list" where
  "column_of board c = map (\<lambda>row. row ! nat c) board"

definition slice :: "int list \<Rightarrow> int \<Rightarrow> int \<Rightarrow> int list" where
  "slice xs a b = take (nat b - nat a) (drop (nat a) xs)"

definition position_score :: "board \<Rightarrow> int \<Rightarrow> int" where
  "position_score board player_value =
     (let score = 0;
          center_col = column_of board (COLUMN_COUNT div 2);
          score = score + 10 * int (count_list center_col player_value);
          score = fold (\<lambda>r score.
                    let row_arr = row_of board r in
                    fold (\<lambda>c score. score + peek_score (slice row_arr c (c + 4)) player_value)
                      (py_range (COLUMN_COUNT - 3)) score)
                  (py_range ROW_COUNT) score;
          score = fold (\<lambda>c score.
                    let col_arr = column_of board c in
                    fold (\<lambda>r score. score + peek_score (slice col_arr r (r + 4)) player_value)
                      (py_range (ROW_COUNT - 3)) score)
                  (py_range COLUMN_COUNT) score;
          score = fold (\<lambda>r score.
                    fold (\<lambda>c score.
                      let window = map (\<lambda>i. cell board (r + i) (c + i)) (py_range 4) in
                      score + peek_score window player_value)
                      (py_range (COLUMN_COUNT - 3)) score)
                  (py_range (ROW_COUNT - 3)) score;
          score = fold (\<lambda>r score.
                    fold (\<lambda>c score.
                      let window = map (\<lambda>i. cell board (r + 3 - i) (c + i)) (py_range 4) in
                      score + peek_score window player_value)
                      (py_range (COLUMN_COUNT - 3)) score)
                  (py_range (ROW_COUNT - 3)) score
      in score)"

subsection \<open>AI utilities\<close>

text \<open>
  The \<^verbatim>\<open>while\<close> loop of \<open>ordered_columns\<close>; \<open>None\<close> stands for a loop that never
  ends.
\<close>

partial_function (option) ordered_columns_loop :: "int \<Rightarrow> int \<Rightarrow> int list \<Rightarrow> int list option"
where
  "ordered_columns_loop center offset order =
     (if int (length order) < COLUMN_COUNT then
        ordered_columns_loop center (offset + 1)
          (let order = (if center - offset \<ge> 0 then order @ [center - offset] else order);
               order = (if center + offset < COLUMN_COUNT then order @ [center + offset]
                        else order)
           in order)
      else Some order)"

declare ordered_columns_loop.simps [code]

definition ordered_columns :: "int list option" where
  "ordered_columns =
     (let center = COLUMN_COUNT div 2;
          order = [center];
          offset = 1
      in ordered_columns_loop center offset order)"

text \<open>
  \<open>simulate_drop\<close> returns \<open>None\<close> for Python's \<^verbatim>\<open>(None, None)\<close>. The copy is a
  value of its own: \<open>place_piece\<close> writes into it.
\<close>

definition simulate_drop :: "board \<Rightarrow> int \<Rightarrow> int \<Rightarrow> (board \<times> int) option" where
  "simulate_drop board col player_value =
     (case check_available_row board col of
        None \<Rightarrow> None
      | Some r \<Rightarrow>
          (let tmp = board;
               tmp = fst (place_piece tmp col (Some r) player_value)
           in Some (tmp, r)))"

definition wins_at :: "board \<Rightarrow> int \<Rightarrow> int \<Rightarrow> bool" where
  \<comment> \<open>the test \<^verbatim>\<open>tmp is not None and check_win(tmp, r, c)\<close> after a simulated drop\<close>
  "wins_at board player_value c =
     (case simulate_drop board c player_value of
        None \<Rightarrow> False
      | Some (tmp, r) \<Rightarrow> check_win tmp r c)"

definition winning_moves :: "board \<Rightarrow> int \<Rightarrow> int list" where
  "winning_moves board player_value =
     filter (wins_at board player_value) (valid_locations board)"

subsection \<open>Scores\<close>

datatype score = NegInf | Fin int | PosInf

instantiation score :: linorder
begin

fun less_eq_score :: "score \<Rightarrow> score \<Rightarrow> bool" where
  "less_eq_score NegInf y = True"
| "less_eq_score (Fin a) NegInf = False"
| "less_eq_score (Fin a) (Fin b) = (a \<le> b)"
| "less_eq_score (Fin a) PosInf = True"
| "less_eq_score PosInf NegInf = False"
| "less_eq_score PosInf (Fin b) = False"
| "less_eq_score PosInf PosInf = True"

definition less_score :: "score \<Rightarrow> score \<Rightarrow> bool" where
  "less_score x y = (x \<le> y \<and> \<not> y \<le> x)"

instance
proof
  fix x y z :: score
  show "(x < y) = (x \<le> y \<and> \<not> y \<le> x)" by (simp add: less_score_def)
  show "x \<le> x" by (cases x) auto
  show "x \<le> y \<Longrightarrow> y \<le> z \<Longrightarrow> x \<le> z" by (cases x; cases y; cases z) auto
  show "x \<le> y \<Longrightarrow> y \<le> x \<Longrightarrow> x = y" by (cases x; cases y) auto
  show "x \<le> y \<or> y \<le> x" by (cases x; cases y) auto
qed

end

subsection \<open>AI (minimax)\<close>

text \<open>
  \<^verbatim>\<open>random.choice\<close> draws from a source of random numbers, which the search
  threads through its calls: the state \<open>g\<close> is the sequence of draws still to come.
  A failure is an exception of the Python run (or a loop that never returns); the
  search returns \<open>Inr\<close> of the pair \<open>(score, column)\<close> and the random state.
  The scores are \<^verbatim>\<open>math.inf\<close>, \<^verbatim>\<open>-math.inf\<close> and the integers (the heuristic's
  value as a float is the same integer: it is far below \<open>2^53\<close>).
\<close>

type_synonym rng = "nat \<Rightarrow> nat"

datatype failure = TypeError | IndexError | NoReturn

definition random_choice :: "rng \<Rightarrow> int list \<Rightarrow> failure + (int \<times> rng)" where
  "random_choice g xs =
     (if xs = [] then Inl IndexError
      else Inr (xs ! (g 0 mod length xs), \<lambda>n. g (Suc n)))"

type_synonym search_result = "failure + (score \<times> int option \<times> rng)"

fun max_loop ::
  "(board \<Rightarrow> score \<Rightarrow> score \<Rightarrow> rng \<Rightarrow> search_result) \<Rightarrow> board \<Rightarrow> int list \<Rightarrow>
   score \<Rightarrow> score \<Rightarrow> score \<Rightarrow> int option \<Rightarrow> rng \<Rightarrow> search_result" where
  "max_loop rec board [] alpha beta value best_col g = Inr (value, best_col, g)"
| "max_loop rec board (c # cs) alpha beta value best_col g =
     (case simulate_drop board c COMPUTER of
        None \<Rightarrow> Inl TypeError
      | Some (tmp, r) \<Rightarrow>
          (case rec tmp alpha beta g of
             Inl e \<Rightarrow> Inl e
           | Inr (new_score, _, g') \<Rightarrow>
               (let (value, best_col) =
                      (if new_score > value then (new_score, Some c) else (value, best_col));
                    alpha = max alpha value
                in if alpha \<ge> beta then Inr (value, best_col, g')
                   else max_loop rec board cs alpha beta value best_col g')))"

fun min_loop ::
  "(board \<Rightarrow> score \<Rightarrow> score \<Rightarrow> rng \<Rightarrow> search_result) \<Rightarrow> board \<Rightarrow> int list \<Rightarrow>
   score \<Rightarrow> score \<Rightarrow> score \<Rightarrow> int option \<Rightarrow> rng \<Rightarrow> search_result" where
  "min_loop rec board [] alpha beta value best_col g = Inr (value, best_col, g)"
| "min_loop rec board (c # cs) alpha beta value best_col g =
     (case simulate_drop board c PLAYER of
        None \<Rightarrow> Inl TypeError
      | Some (tmp, r) \<Rightarrow>
          (case rec tmp alpha beta g of
             Inl e \<Rightarrow> Inl e
           | Inr (new_score, _, g') \<Rightarrow>
               (let (value, best_col) =
                      (if new_score < value then (new_score, Some c) else (value, best_col));
                    beta = min beta value
                in if alpha \<ge> beta then Inr (value, best_col, g')
                   else min_loop rec board cs alpha beta value best_col g')))"

definition minimax_leaf :: "board \<Rightarrow> rng \<Rightarrow> search_result" where
  "minimax_leaf board g =
     (let (game_over, winner) = is_terminal board in
      if game_over then
        (if winner = Some COMPUTER then Inr (PosInf, None, g)
         else if winner = Some PLAYER then Inr (NegInf, None, g)
         else Inr (Fin 0, None, g))
      else Inr (Fin (position_score board COMPUTER), None, g))"

definition pick_column :: "int list \<Rightarrow> search_result \<Rightarrow> search_result" where
  "pick_column valid res =
     (case res of
        Inl e \<Rightarrow> Inl e
      | Inr (value, best_col, g) \<Rightarrow>
          (case best_col of
             None \<Rightarrow>
               (case random_choice g valid of
                  Inl e \<Rightarrow> Inl e
                | Inr (c, g') \<Rightarrow> Inr (value, Some c, g'))
           | Some c \<Rightarrow> Inr (value, Some c, g)))"

definition minimax_node ::
  "(board \<Rightarrow> score \<Rightarrow> score \<Rightarrow> bool \<Rightarrow> rng \<Rightarrow> search_result) \<Rightarrow>
   board \<Rightarrow> score \<Rightarrow> score \<Rightarrow> bool \<Rightarrow> rng \<Rightarrow> search_result" where
  "minimax_node rec board alpha beta maximizing g =
     (case ordered_columns of
        None \<Rightarrow> Inl NoReturn
      | Some columns \<Rightarrow>
          (let valid = valid_locations board;
               order = filter (\<lambda>c. c \<in> set valid) columns
           in if maximizing then
                (case find (wins_at board COMPUTER) order of
                   Some c \<Rightarrow> Inr (PosInf, Some c, g)
                 | None \<Rightarrow>
                     pick_column valid
                       (max_loop (\<lambda>tmp alpha beta g. rec tmp alpha beta False g)
                          board order alpha beta NegInf None g))
              else
                (case find (wins_at board PLAYER) order of
                   Some c \<Rightarrow> Inr (NegInf, Some c, g)
                 | None \<Rightarrow>
                     pick_column valid
                       (min_loop (\<lambda>tmp alpha beta g. rec tmp alpha beta True g)
                          board order alpha beta PosInf None g))))"

fun minimax :: "board \<Rightarrow> nat \<Rightarrow> score \<Rightarrow> score \<Rightarrow> bool \<Rightarrow> rng \<Rightarrow> search_result" where
  "minimax board depth alpha beta maximizing g =
     (if depth = 0 \<or> fst (is_terminal board) then minimax_leaf board g
      else minimax_node (\<lambda>tmp alpha beta maximizing g. minimax tmp (depth - 1) alpha beta maximizing g)
             board alpha beta maximizing g)"

declare minimax.simps [simp del]

definition ai_best_move :: "board \<Rightarrow> rng \<Rightarrow> failure + (int \<times> rng)" where
  "ai_best_move board g =
     (let wins = winning_moves board COMPUTER in
      if wins \<noteq> [] then Inr (wins ! 0, g)
      else
        (let opp_wins = winning_moves board PLAYER in
         if opp_wins \<noteq> [] then Inr (opp_wins ! 0, g)
         else
           (case minimax board AI_DEPTH NegInf PosInf True g of
              Inl e \<Rightarrow> Inl e
            | Inr (_, col, g') \<Rightarrow>
                (case col of
                   Some c \<Rightarrow> Inr (c, g')
                 | None \<Rightarrow> random_choice g' (valid_locations board)))))"

subsection \<open>The drop of the game loops\<close>

text \<open>
  The game loops (\<open>two_player\<close>, \<open>play_computer\<close>) take a column from the mouse,
  test \<^verbatim>\<open>0 <= col < COLUMN_COUNT\<close>, ask \<open>check_available_row\<close> for the row and
  call \<open>place_piece\<close>; \<open>drop_piece\<close> is that sequence, and \<open>play\<close> a run of
  such drops, each with its column and piece.
\<close>

definition drop_piece :: "board \<Rightarrow> int \<Rightarrow> int \<Rightarrow> board \<times> bool" where
  "drop_piece board col player =
     (if 0 \<le> col \<and> col < COLUMN_COUNT then
        (let row = check_available_row board col in place_piece board col row player)
      else (board, False))"

fun play :: "board \<Rightarrow> (int \<times> int) list \<Rightarrow> board" where
  "play board [] = board"
| "play board ((col, player) # moves) = play (fst (drop_piece board col player)) moves"

subsection \<open>Properties of boards\<close>

text \<open>A column with no empty cell; the lowest empty row of a column; no piece above an
  empty cell.\<close>

definition column_full :: "board \<Rightarrow> int \<Rightarrow> bool" where
  "column_full board column = list_all (\<lambda>r. cell board r column \<noteq> EMPTY) (py_range ROW_COUNT)"

definition lowest_empty_row :: "board \<Rightarrow> int \<Rightarrow> int \<Rightarrow> bool" where
  "lowest_empty_row board column r =
     (0 \<le> r \<and> r < ROW_COUNT \<and> cell board r column = EMPTY \<and>
      list_all (\<lambda>r'. cell board r' column \<noteq> EMPTY) (py_range r))"

definition no_floating :: "board \<Rightarrow> bool" where
  "no_floating board =
     list_all (\<lambda>c. list_all (\<lambda>r. \<not> (cell board (r + 1) c \<noteq> EMPTY \<and> cell board r c = EMPTY))
                  (py_range (ROW_COUNT - 1)))
       (py_range COLUMN_COUNT)"


subsection \<open>Lines of four\<close>

text \<open>
  The windows of the board: four cells in a row along one of the four directions
  (along a row, up a column, and the two diagonals), all on the board. A side has a
  line when one window holds its piece in all four cells; a line goes through a cell
  when the window contains the cell and every cell of it holds that cell's piece.
\<close>

definition in_board :: "int \<Rightarrow> int \<Rightarrow> bool" where
  "in_board r c = (0 \<le> r \<and> r < ROW_COUNT \<and> 0 \<le> c \<and> c < COLUMN_COUNT)"

definition directions :: "(int \<times> int) list" where
  "directions = [(0, 1), (1, 0), (1, 1), (- 1, 1)]"

definition window_cells :: "int \<Rightarrow> int \<Rightarrow> int \<times> int \<Rightarrow> (int \<times> int) list" where
  "window_cells r c d = map (\<lambda>i. (r + i * fst d, c + i * snd d)) (py_range 4)"

definition all_windows :: "(int \<times> int) list list" where
  "all_windows =
     filter (list_all (\<lambda>(r, c). in_board r c))
       (concat (map (\<lambda>d. concat (map (\<lambda>r. map (\<lambda>c. window_cells r c d) (py_range COLUMN_COUNT))
                                    (py_range ROW_COUNT)))
                  directions))"

definition has_line :: "board \<Rightarrow> int \<Rightarrow> bool" where
  "has_line board side =
     list_ex (\<lambda>w. list_all (\<lambda>(r, c). cell board r c = side) w) all_windows"

definition line_through :: "board \<Rightarrow> int \<Rightarrow> int \<Rightarrow> bool" where
  "line_through board row col =
     list_ex (\<lambda>w. (row, col) \<in> set w \<and>
                   list_all (\<lambda>(r, c). cell board r c = cell board row col) w) all_windows"


text \<open>Two boards used below: a row of four with a further piece apart from it, and
  a board on which both sides have a row of four.\<close>

definition far_line_board :: board where
  "far_line_board =
     [[1, 1, 1, 1, 2, 2, 1],
      [2, 2, 0, 0, 0, 0, 0],
      [0, 0, 0, 0, 0, 0, 0],
      [0, 0, 0, 0, 0, 0, 0],
      [0, 0, 0, 0, 0, 0, 0],
      [0, 0, 0, 0, 0, 0, 0]]"

definition two_lines_board :: board where
  "two_lines_board =
     [[1, 1, 1, 1, 0, 0, 0],
      [2, 2, 2, 2, 0, 0, 0],
      [0, 0, 0, 0, 0, 0, 0],
      [0, 0, 0, 0, 0, 0, 0],
      [0, 0, 0, 0, 0, 0, 0],
      [0, 0, 0, 0, 0, 0, 0]]"

subsection \<open>The heuristic as a table\<close>

text \<open>
  The score of a window of four cells for a side, by its composition, and the value of a
  board: ten for each piece of the side in the middle column plus the scores of all
  windows.
\<close>

definition window_score :: "int list \<Rightarrow> int \<Rightarrow> int" where
  "window_score window side =
     (let opponent = (if side = PLAYER then COMPUTER else PLAYER);
          own = count_list window side;
          theirs = count_list window opponent;
          empty = count_list window EMPTY
      in if own = 4 then 100000
         else if own = 3 \<and> empty = 1 then 100
         else if own = 2 \<and> empty = 2 then 10
         else if theirs = 3 \<and> empty = 1 then - 120
         else if theirs = 2 \<and> empty = 2 then - 15
         else 0)"

definition heuristic :: "board \<Rightarrow> int \<Rightarrow> int" where
  "heuristic board side =
     10 * int (length (filter (\<lambda>r. cell board r (COLUMN_COUNT div 2) = side) (py_range ROW_COUNT))) +
     sum_list (map (\<lambda>w. window_score (map (\<lambda>(r, c). cell board r c) w) side) all_windows)"

subsection \<open>The moves of a search node\<close>

text \<open>
  The list \<open>order\<close> of \<open>minimax\<close>: the columns of \<open>ordered_columns\<close> that are
  valid locations of the board. A board on which both sides have three in a row and
  column 3 completes either line.
\<close>

definition ordered_moves :: "board \<Rightarrow> int list" where
  "ordered_moves board = filter (\<lambda>c. c \<in> set (valid_locations board)) [3, 2, 4, 1, 5, 0, 6]"


definition three_in_row_board :: board where
  "three_in_row_board =
     [[2, 2, 2, 0, 1, 1, 1],
      [0, 0, 0, 0, 0, 0, 0],
      [0, 0, 0, 0, 0, 0, 0],
      [0, 0, 0, 0, 0, 0, 0],
      [0, 0, 0, 0, 0, 0, 0],
      [0, 0, 0, 0, 0, 0, 0]]"

subsection \<open>Winning at once\<close>

text \<open>
  A column wins at once for a side when the side's piece, dropped there, lands in a
  line of four through it. On \<open>block_board\<close> only PLAYER has such a column.
\<close>

definition immediate_win :: "board \<Rightarrow> int \<Rightarrow> int \<Rightarrow> bool" where
  "immediate_win board side c =
     (case simulate_drop board c side of
        None \<Rightarrow> False
      | Some (tmp, r) \<Rightarrow> line_through tmp r c)"

definition block_board :: board where
  "block_board =
     [[2, 0, 0, 0, 1, 1, 1],
      [0, 0, 0, 0, 2, 0, 0],
      [0, 0, 0, 0, 0, 0, 0],
      [0, 0, 0, 0, 0, 0, 0],
      [0, 0, 0, 0, 0, 0, 0],
      [0, 0, 0, 0, 0, 0, 0]]"

subsection \<open>Plain minimax\<close>

text \<open>
  The reference for the search: minimax with the same evaluation at the leaves and with
  no pruning, no shortcut and no move ordering. \<open>child\<close> is the board after a drop,
  \<open>highest\<close> and \<open>lowest\<close> the best score of a list for the maximizing and the
  minimizing side. \<open>within alpha beta exact v\<close> says what a score \<open>v\<close> returned for
  the window tells about the exact value: equal inside the window, a bound outside.
\<close>

definition leaf_score :: "board \<Rightarrow> score" where
  "leaf_score board =
     (case is_terminal board of
        (True, winner) \<Rightarrow>
          (if winner = Some COMPUTER then PosInf
           else if winner = Some PLAYER then NegInf
           else Fin 0)
      | (False, _) \<Rightarrow> Fin (position_score board COMPUTER))"

definition child :: "board \<Rightarrow> int \<Rightarrow> int \<Rightarrow> board" where
  "child board side c =
     (case simulate_drop board c side of Some (tmp, r) \<Rightarrow> tmp | None \<Rightarrow> board)"

fun highest :: "score list \<Rightarrow> score" where
  "highest [] = NegInf"
| "highest (x # xs) = max x (highest xs)"

fun lowest :: "score list \<Rightarrow> score" where
  "lowest [] = PosInf"
| "lowest (x # xs) = min x (lowest xs)"

fun plain_minimax :: "board \<Rightarrow> nat \<Rightarrow> bool \<Rightarrow> score" where
  "plain_minimax board depth maximizing =
     (if depth = 0 \<or> fst (is_terminal board) then leaf_score board
      else if maximizing then
        highest (map (\<lambda>c. plain_minimax (child board COMPUTER c) (depth - 1) False)
                   (valid_locations board))
      else
        lowest (map (\<lambda>c. plain_minimax (child board PLAYER c) (depth - 1) True)
                  (valid_locations board)))"

declare plain_minimax.simps [simp del]

definition within :: "score \<Rightarrow> score \<Rightarrow> score \<Rightarrow> score \<Rightarrow> bool" where
  "within alpha beta exact v =
     ((v \<le> alpha \<longrightarrow> exact \<le> v) \<and> (alpha < v \<and> v < beta \<longrightarrow> v = exact) \<and>
      (beta \<le> v \<longrightarrow> v \<le> exact))"

text \<open>
  A position after 35 moves, COMPUTER to move, with the columns 2, 4 and 6 open, on which
  the search at depth two cuts off.
\<close>

definition cut_off_board :: board where
  "cut_off_board =
     [[1, 1, 2, 1, 2, 1, 2],
      [2, 2, 2, 1, 2, 2, 1],
      [1, 1, 2, 1, 1, 1, 2],
      [2, 2, 1, 2, 0, 1, 0],
      [1, 1, 1, 2, 0, 2, 0],
      [2, 1, 0, 1, 0, 2, 0]]"

subsection \<open>The search on a store of boards\<close>

text \<open>
  A board of the program is a numpy array: an object that the functions receive by reference.
  \<open>board.copy()\<close> allocates a new array with the same cells, and \<open>place_piece\<close>
  writes into the array it is given. To say which arrays the search writes, the search is
  modelled a second time on a store, the list of all arrays allocated so far, a board being
  the index of its array. The functions that only read a board (\<open>check_available_row\<close>,
  \<open>valid_locations\<close>, \<open>check_win\<close>, \<open>is_terminal\<close>, \<open>position_score\<close>) are applied
  to the array found at the index. \<open>extends s s'\<close> says that every array of \<open>s\<close> is still
  in \<open>s'\<close>, at the same index and with the same cells.
\<close>

type_synonym store = "board list"

definition h_copy :: "store \<Rightarrow> nat \<Rightarrow> store \<times> nat" where
  "h_copy s a = (s @ [s ! a], length s)"

definition h_place_piece :: "store \<Rightarrow> nat \<Rightarrow> int \<Rightarrow> int option \<Rightarrow> int \<Rightarrow> store \<times> bool" where
  "h_place_piece s board column row player_value =
     (case row of
        None \<Rightarrow> (s, False)
      | Some r \<Rightarrow> (s[board := set_cell (s ! board) r column player_value], True))"

definition h_simulate_drop :: "store \<Rightarrow> nat \<Rightarrow> int \<Rightarrow> int \<Rightarrow> store \<times> (nat \<times> int) option" where
  "h_simulate_drop s board col player_value =
     (case check_available_row (s ! board) col of
        None \<Rightarrow> (s, None)
      | Some r \<Rightarrow>
          (let (s, tmp) = h_copy s board;
               (s, _) = h_place_piece s tmp col (Some r) player_value
           in (s, Some (tmp, r))))"

fun h_find_win :: "store \<Rightarrow> nat \<Rightarrow> int \<Rightarrow> int list \<Rightarrow> store \<times> int option" where
  "h_find_win s board side [] = (s, None)"
| "h_find_win s board side (c # cs) =
     (case h_simulate_drop s board c side of
        (s, None) \<Rightarrow> h_find_win s board side cs
      | (s, Some (tmp, r)) \<Rightarrow>
          if check_win (s ! tmp) r c then (s, Some c) else h_find_win s board side cs)"

fun h_max_loop ::
  "(store \<Rightarrow> nat \<Rightarrow> score \<Rightarrow> score \<Rightarrow> rng \<Rightarrow> store \<times> search_result) \<Rightarrow> store \<Rightarrow> nat \<Rightarrow>
   int list \<Rightarrow> score \<Rightarrow> score \<Rightarrow> score \<Rightarrow> int option \<Rightarrow> rng \<Rightarrow> store \<times> search_result" where
  "h_max_loop rec s board [] alpha beta value best_col g = (s, Inr (value, best_col, g))"
| "h_max_loop rec s board (c # cs) alpha beta value best_col g =
     (case h_simulate_drop s board c COMPUTER of
        (s, None) \<Rightarrow> (s, Inl TypeError)
      | (s, Some (tmp, r)) \<Rightarrow>
          (case rec s tmp alpha beta g of
             (s, Inl e) \<Rightarrow> (s, Inl e)
           | (s, Inr (new_score, _, g')) \<Rightarrow>
               (let (value, best_col) =
                      (if new_score > value then (new_score, Some c) else (value, best_col));
                    alpha = max alpha value
                in if alpha \<ge> beta then (s, Inr (value, best_col, g'))
                   else h_max_loop rec s board cs alpha beta value best_col g')))"

fun h_min_loop ::
  "(store \<Rightarrow> nat \<Rightarrow> score \<Rightarrow> score \<Rightarrow> rng \<Rightarrow> store \<times> search_result) \<Rightarrow> store \<Rightarrow> nat \<Rightarrow>
   int list \<Rightarrow> score \<Rightarrow> score \<Rightarrow> score \<Rightarrow> int option \<Rightarrow> rng \<Rightarrow> store \<times> search_result" where
  "h_min_loop rec s board [] alpha beta value best_col g = (s, Inr (value, best_col, g))"
| "h_min_loop rec s board (c # cs) alpha beta value best_col g =
     (case h_simulate_drop s board c PLAYER of
        (s, None) \<Rightarrow> (s, Inl TypeError)
      | (s, Some (tmp, r)) \<Rightarrow>
          (case rec s tmp alpha beta g of
             (s, Inl e) \<Rightarrow> (s, Inl e)
           | (s, Inr (new_score, _, g')) \<Rightarrow>
               (let (value, best_col) =
                      (if new_score < value then (new_score, Some c) else (value, best_col));
                    beta = min beta value
                in if alpha \<ge> beta then (s, Inr (value, best_col, g'))
                   else h_min_loop rec s board cs alpha beta value best_col g')))"

definition h_minimax_node ::
  "(store \<Rightarrow> nat \<Rightarrow> score \<Rightarrow> score \<Rightarrow> bool \<Rightarrow> rng \<Rightarrow> store \<times> search_result) \<Rightarrow>
   store \<Rightarrow> nat \<Rightarrow> score \<Rightarrow> score \<Rightarrow> bool \<Rightarrow> rng \<Rightarrow> store \<times> search_result" where
  "h_minimax_node rec s board alpha beta maximizing g =
     (case ordered_columns of
        None \<Rightarrow> (s, Inl NoReturn)
      | Some columns \<Rightarrow>
          (let valid = valid_locations (s ! board);
               order = filter (\<lambda>c. c \<in> set valid) columns
           in if maximizing then
                (case h_find_win s board COMPUTER order of
                   (s, Some c) \<Rightarrow> (s, Inr (PosInf, Some c, g))
                 | (s, None) \<Rightarrow>
                     (case h_max_loop (\<lambda>s tmp alpha beta g. rec s tmp alpha beta False g)
                             s board order alpha beta NegInf None g of
                        (s, res) \<Rightarrow> (s, pick_column valid res)))
              else
                (case h_find_win s board PLAYER order of
                   (s, Some c) \<Rightarrow> (s, Inr (NegInf, Some c, g))
                 | (s, None) \<Rightarrow>
                     (case h_min_loop (\<lambda>s tmp alpha beta g. rec s tmp alpha beta True g)
                             s board order alpha beta PosInf None g of
                        (s, res) \<Rightarrow> (s, pick_column valid res)))))"

fun h_minimax ::
  "store \<Rightarrow> nat \<Rightarrow> nat \<Rightarrow> score \<Rightarrow> score \<Rightarrow> bool \<Rightarrow> rng \<Rightarrow> store \<times> search_result" where
  "h_minimax s board depth alpha beta maximizing g =
     (if depth = 0 \<or> fst (is_terminal (s ! board)) then (s, minimax_leaf (s ! board) g)
      else h_minimax_node
             (\<lambda>s tmp alpha beta maximizing g. h_minimax s tmp (depth - 1) alpha beta maximizing g)
             s board alpha beta maximizing g)"

declare h_minimax.simps [simp del]

fun h_winning_moves_loop :: "store \<Rightarrow> nat \<Rightarrow> int \<Rightarrow> int list \<Rightarrow> int list \<Rightarrow> store \<times> int list" where
  "h_winning_moves_loop s board side [] wins = (s, wins)"
| "h_winning_moves_loop s board side (c # cs) wins =
     (case h_simulate_drop s board c side of
        (s, None) \<Rightarrow> h_winning_moves_loop s board side cs wins
      | (s, Some (tmp, r)) \<Rightarrow>
          h_winning_moves_loop s board side cs
            (if check_win (s ! tmp) r c then wins @ [c] else wins))"

definition h_winning_moves :: "store \<Rightarrow> nat \<Rightarrow> int \<Rightarrow> store \<times> int list" where
  "h_winning_moves s board side =
     h_winning_moves_loop s board side (valid_locations (s ! board)) []"

definition h_ai_best_move :: "store \<Rightarrow> nat \<Rightarrow> rng \<Rightarrow> store \<times> (failure + (int \<times> rng))" where
  "h_ai_best_move s board g =
     (let (s, wins) = h_winning_moves s board COMPUTER in
      if wins \<noteq> [] then (s, Inr (wins ! 0, g))
      else
        (let (s, opp_wins) = h_winning_moves s board PLAYER in
         if opp_wins \<noteq> [] then (s, Inr (opp_wins ! 0, g))
         else
           (case h_minimax s board AI_DEPTH NegInf PosInf True g of
              (s, Inl e) \<Rightarrow> (s, Inl e)
            | (s, Inr (_, col, g')) \<Rightarrow>
                (case col of
                   Some c \<Rightarrow> (s, Inr (c, g'))
                 | None \<Rightarrow> (s, random_choice g' (valid_locations (s ! board)))))))"

definition extends :: "store \<Rightarrow> store \<Rightarrow> bool" where
  "extends s s' = (length s \<le> length s' \<and> (\<forall>a<length s. s' ! a = s ! a))"

subsection \<open>Evaluation of the ranges\<close>

lemma py_range_3: "py_range 3 = [0, 1, 2]"
  by (simp add: py_range_def upto.simps)

lemma py_range_4: "py_range 4 = [0, 1, 2, 3]"
  by (simp add: py_range_def upto.simps)

lemma py_range_6: "py_range 6 = [0, 1, 2, 3, 4, 5]"
  by (simp add: py_range_def upto.simps)

lemma py_range_7: "py_range 7 = [0, 1, 2, 3, 4, 5, 6]"
  by (simp add: py_range_def upto.simps)

lemma py_range_from_3_6: "py_range_from 3 6 = [3, 4, 5]"
  by (simp add: py_range_from_def upto.simps)

lemmas py_ranges = py_range_3 py_range_4 py_range_6 py_range_7 py_range_from_3_6

lemma set_py_range: "set (py_range n) = {0..<n}"
  by (auto simp: py_range_def)

lemma set_py_range_from: "set (py_range_from a b) = {a..<b}"
  by (auto simp: py_range_from_def)

lemma ordered_columns_returns: "ordered_columns = Some [3, 2, 4, 1, 5, 0, 6]"
  by (simp add: ordered_columns_def ordered_columns_loop.simps)

subsection \<open>Cells, drops and gravity\<close>

lemma in_py_range: "r \<in> set (py_range n) \<longleftrightarrow> 0 \<le> r \<and> r < n"
  by (auto simp: py_range_def)

lemma wf_board_rows: "wf_board b \<Longrightarrow> 0 \<le> r \<Longrightarrow> r < 6 \<Longrightarrow> length (b ! nat r) = 7"
  by (simp add: wf_board_def list_all_length)

lemma wf_board_set_cell: "wf_board b \<Longrightarrow> wf_board (set_cell b r c v)"
proof -
  assume wf: "wf_board b"
  have "length row = 7" if "row \<in> set (b[nat r := (b ! nat r)[nat c := v]])" for row
  proof -
    from that have "row = (b ! nat r)[nat c := v] \<and> nat r < length b \<or> row \<in> set b"
      using set_update_subset_insert[of b "nat r" "(b ! nat r)[nat c := v]"]
      by (cases "nat r < length b") (auto simp: list_update_beyond)
    then show ?thesis
      using wf by (auto simp: wf_board_def list_all_iff)
  qed
  then show ?thesis
    using wf by (simp add: wf_board_def set_cell_def list_all_iff)
qed

lemma cell_set_cell:
  assumes "wf_board b" "0 \<le> r" "r < 6" "0 \<le> c" "c < 7" "0 \<le> r'" "0 \<le> c'"
  shows "cell (set_cell b r c v) r' c' = (if r' = r \<and> c' = c then v else cell b r' c')"
proof -
  have len: "nat r < length b" "nat c < length (b ! nat r)"
    using assms wf_board_rows[of b r] by (simp_all add: wf_board_def)
  show ?thesis
  proof (cases "r' = r")
    case True
    then show ?thesis using len assms
      by (auto simp: cell_def set_cell_def nth_list_update)
  next
    case False
    then have "nat r' \<noteq> nat r" using assms by simp
    then show ?thesis using False by (simp add: cell_def set_cell_def)
  qed
qed

lemma wf_create_board: "wf_board create_board"
  by (simp add: wf_board_def create_board_def list_all_length)

lemma cell_create_board: "0 \<le> r \<Longrightarrow> r < 6 \<Longrightarrow> 0 \<le> c \<Longrightarrow> c < 7 \<Longrightarrow> cell create_board r c = 0"
  by (simp add: cell_def create_board_def)

lemma find_py_range_Some:
  "find P (py_range n) = Some r \<longleftrightarrow>
     0 \<le> r \<and> r < n \<and> P r \<and> (\<forall>r'. 0 \<le> r' \<and> r' < r \<longrightarrow> \<not> P r')"
proof
  assume "find P (py_range n) = Some r"
  then obtain i where i: "i < length [0..n - 1]" "P ([0..n - 1] ! i)" "r = [0..n - 1] ! i"
    "\<forall>j<i. \<not> P ([0..n - 1] ! j)"
    unfolding py_range_def find_Some_iff by blast
  from i(1) have r: "r = int i" "int i < n" using i(3) by (simp_all add: nth_upto)
  have "\<not> P r'" if "0 \<le> r'" "r' < r" for r'
  proof -
    have "nat r' < i" using that r by linarith
    moreover have "[0..n - 1] ! nat r' = r'" using that r by (simp add: nth_upto)
    ultimately show ?thesis using i(4) by auto
  qed
  then show "0 \<le> r \<and> r < n \<and> P r \<and> (\<forall>r'. 0 \<le> r' \<and> r' < r \<longrightarrow> \<not> P r')"
    using r i(2,3) by auto
next
  assume a: "0 \<le> r \<and> r < n \<and> P r \<and> (\<forall>r'. 0 \<le> r' \<and> r' < r \<longrightarrow> \<not> P r')"
  then have len: "nat r < length [0..n - 1]" by simp
  have nth: "[0..n - 1] ! j = int j" if "j \<le> nat r" for j
  proof -
    have "0 + int j \<le> n - 1" using that a by linarith
    then show ?thesis by (simp only: nth_upto)
  qed
  have "P ([0..n - 1] ! nat r)" "r = [0..n - 1] ! nat r"
    using a nth[of "nat r"] by simp_all
  moreover have "\<forall>j<nat r. \<not> P ([0..n - 1] ! j)"
  proof (intro allI impI)
    fix j assume j: "j < nat r"
    then have "[0..n - 1] ! j = int j" using nth[of j] by simp
    moreover have "0 \<le> int j \<and> int j < r" using j by linarith
    ultimately show "\<not> P ([0..n - 1] ! j)" using a by simp
  qed
  ultimately show "find P (py_range n) = Some r"
    unfolding py_range_def find_Some_iff using len by blast
qed

lemma check_available_row_Some:
  "check_available_row b c = Some r \<longleftrightarrow>
     0 \<le> c \<and> c < 7 \<and> lowest_empty_row b c r"
  by (auto simp: check_available_row_def lowest_empty_row_def find_py_range_Some
        list_all_iff in_py_range)

lemma check_available_row_None:
  "check_available_row b c = None \<longleftrightarrow> c < 0 \<or> c \<ge> 7 \<or> column_full b c"
  by (auto simp: check_available_row_def find_None_iff column_full_def list_all_iff)

lemma drop_piece_cases:
  "drop_piece b col p = (b, False) \<and> check_available_row b col = None \<or>
   (\<exists>r. 0 \<le> col \<and> col < 7 \<and> lowest_empty_row b col r \<and> check_available_row b col = Some r \<and>
        drop_piece b col p = (set_cell b r col p, True))"
proof (cases "check_available_row b col")
  case None
  then show ?thesis by (simp add: drop_piece_def place_piece_def)
next
  case (Some r)
  then show ?thesis
    using check_available_row_Some[of b col r]
    by (simp add: drop_piece_def place_piece_def)
qed

lemma create_board_eq:
  "create_board = [[0,0,0,0,0,0,0],[0,0,0,0,0,0,0],[0,0,0,0,0,0,0],
                   [0,0,0,0,0,0,0],[0,0,0,0,0,0,0],[0,0,0,0,0,0,0]]"
  by (simp add: create_board_def eval_nat_numeral)


lemma no_floating_iff:
  "no_floating b \<longleftrightarrow>
     (\<forall>c r. 0 \<le> c \<and> c < 7 \<and> 0 \<le> r \<and> r < 5 \<longrightarrow> \<not> (cell b (r + 1) c \<noteq> 0 \<and> cell b r c = 0))"
  by (simp add: no_floating_def list_all_iff set_py_range Ball_def) blast

lemma lowest_empty_row_iff:
  "lowest_empty_row b col r \<longleftrightarrow>
     0 \<le> r \<and> r < 6 \<and> cell b r col = 0 \<and> (\<forall>r'. 0 \<le> r' \<and> r' < r \<longrightarrow> cell b r' col \<noteq> 0)"
  by (simp add: lowest_empty_row_def list_all_iff set_py_range Ball_def)

lemma no_floating_set_cell:
  assumes wf: "wf_board b" and nf: "no_floating b"
    and col: "0 \<le> col" "col < 7" and low: "lowest_empty_row b col r"
  shows "no_floating (set_cell b r col p)"
proof -
  have r: "0 \<le> r" "r < 6" "cell b r col = 0"
    and below: "\<And>r'. 0 \<le> r' \<Longrightarrow> r' < r \<Longrightarrow> cell b r' col \<noteq> 0"
    using low by (simp_all add: lowest_empty_row_iff)
  have nf': "\<And>c r0. 0 \<le> c \<Longrightarrow> c < 7 \<Longrightarrow> 0 \<le> r0 \<Longrightarrow> r0 < 5 \<Longrightarrow>
               cell b r0 c = 0 \<Longrightarrow> cell b (r0 + 1) c = 0"
    using nf unfolding no_floating_iff by blast
  have "\<not> (cell (set_cell b r col p) (r0 + 1) c \<noteq> 0 \<and> cell (set_cell b r col p) r0 c = 0)"
    if c: "0 \<le> c" "c < 7" and r0: "0 \<le> r0" "r0 < 5" for c r0
  proof -
    have up: "cell (set_cell b r col p) (r0 + 1) c =
                (if r0 + 1 = r \<and> c = col then p else cell b (r0 + 1) c)"
      using cell_set_cell[OF wf r(1,2) col, of "r0 + 1" c p] r0 c by simp
    have lo: "cell (set_cell b r col p) r0 c = (if r0 = r \<and> c = col then p else cell b r0 c)"
      using cell_set_cell[OF wf r(1,2) col, of r0 c p] r0 c by simp
    show ?thesis
    proof (cases "c = col")
      case False
      then show ?thesis using up lo nf'[OF c r0] by auto
    next
      case True
      consider "r0 = r" | "r0 + 1 = r" | "r0 \<noteq> r" "r0 + 1 \<noteq> r" by blast
      then show ?thesis
      proof cases
        case 1
        then show ?thesis using up lo True r nf'[OF c r0] by auto
      next
        case 2
        then have "cell b r0 col \<noteq> 0" using below[of r0] r0 by simp
        then show ?thesis using 2 lo True by auto
      next
        case 3
        then show ?thesis using up lo nf'[OF c r0] by auto
      qed
    qed
  qed
  then show ?thesis unfolding no_floating_iff by blast
qed

lemma drop_piece_invariant:
  assumes "wf_board b" "no_floating b"
  shows "wf_board (fst (drop_piece b col p)) \<and> no_floating (fst (drop_piece b col p))"
  using drop_piece_cases[of b col p] assms
  by (auto simp: wf_board_set_cell no_floating_set_cell)

lemma no_floating_create_board: "no_floating create_board"
  unfolding no_floating_iff by (simp add: cell_create_board)

lemma play_invariant:
  "wf_board b \<Longrightarrow> no_floating b \<Longrightarrow> wf_board (play b moves) \<and> no_floating (play b moves)"
proof (induction moves arbitrary: b)
  case Nil
  then show ?case by simp
next
  case (Cons m moves)
  obtain col p where m: "m = (col, p)" by (cases m)
  show ?case
    using Cons.IH[of "fst (drop_piece b col p)"] drop_piece_invariant[OF Cons.prems, of col p]
    by (simp add: m)
qed

text \<open>
  C7: from the empty board, after any run of drops the board has no non-empty cell
  directly above an empty cell of the same column, and every further drop that is
  accepted puts its piece in the lowest empty row of its column.
\<close>

theorem drops_obey_gravity:
  "no_floating (play create_board moves) \<and>
   (\<forall>col player board'.
      drop_piece (play create_board moves) col player = (board', True) \<longrightarrow>
      (\<exists>r. lowest_empty_row (play create_board moves) col r \<and>
           board' = set_cell (play create_board moves) r col player \<and>
           cell board' r col = player))"
proof -
  let ?b = "play create_board moves"
  have inv: "wf_board ?b" "no_floating ?b"
    using play_invariant[OF wf_create_board no_floating_create_board] by simp_all
  have "\<exists>r. lowest_empty_row ?b col r \<and> board' = set_cell ?b r col player \<and>
           cell board' r col = player"
    if "drop_piece ?b col player = (board', True)" for col player board'
  proof -
    from drop_piece_cases[of ?b col player] that
    obtain r where r: "0 \<le> col" "col < 7" "lowest_empty_row ?b col r"
      "board' = set_cell ?b r col player" by auto
    then have "cell board' r col = player"
      using cell_set_cell[OF inv(1), of r col r col player]
      by (simp add: lowest_empty_row_iff)
    with r show ?thesis by blast
  qed
  with inv(2) show ?thesis by blast
qed


theorem drops_obey_gravity_witness:
  "no_floating (play create_board [(3, PLAYER), (3, COMPUTER), (9, PLAYER)]) \<and>
   drop_piece (play create_board [(3, PLAYER), (3, COMPUTER), (9, PLAYER)]) 3 PLAYER =
     (set_cell (play create_board [(3, PLAYER), (3, COMPUTER), (9, PLAYER)]) 2 3 PLAYER, True) \<and>
   lowest_empty_row (play create_board [(3, PLAYER), (3, COMPUTER), (9, PLAYER)]) 3 2"
proof -
  let ?b = "play create_board [(3, PLAYER), (3, COMPUTER), (9, PLAYER)]"
  have b: "?b = [[0,0,0,1,0,0,0],[0,0,0,2,0,0,0],[0,0,0,0,0,0,0],
                 [0,0,0,0,0,0,0],[0,0,0,0,0,0,0],[0,0,0,0,0,0,0]]"
    by (simp add: drop_piece_def check_available_row_def py_ranges place_piece_def
          create_board_def cell_def set_cell_def eval_nat_numeral)
  have d: "drop_piece ?b 3 PLAYER = (set_cell ?b 2 3 PLAYER, True)"
    unfolding b
    by (simp add: drop_piece_def check_available_row_def py_ranges place_piece_def
          cell_def set_cell_def eval_nat_numeral)
  have l: "lowest_empty_row ?b 3 2"
    unfolding b by (simp add: lowest_empty_row_def py_range_def upto.simps cell_def eval_nat_numeral)
  from drops_obey_gravity[of "[(3, PLAYER), (3, COMPUTER), (9, PLAYER)]"] d l
  show ?thesis by blast
qed



text \<open>
  C9: a drop into a column that is out of range or full fails: \<open>check_available_row\<close>
  returns \<open>None\<close>, \<open>place_piece\<close> returns \<open>False\<close>, and the board is the one it was.
\<close>

theorem rejected_drop_is_noop:
  assumes "column < 0 \<or> column \<ge> COLUMN_COUNT \<or> column_full board column"
  shows "check_available_row board column = None \<and>
         place_piece board column (check_available_row board column) player_value = (board, False) \<and>
         drop_piece board column player_value = (board, False)"
proof -
  have "check_available_row board column = None"
    using assms by (simp add: check_available_row_None)
  then show ?thesis
    by (simp add: place_piece_def drop_piece_def)
qed

theorem rejected_drop_is_noop_witness:
  "column_full [[1,0,0,0,0,0,0],[2,0,0,0,0,0,0],[1,0,0,0,0,0,0],
                [2,0,0,0,0,0,0],[1,0,0,0,0,0,0],[2,0,0,0,0,0,0]] 0 \<and>
   drop_piece [[1,0,0,0,0,0,0],[2,0,0,0,0,0,0],[1,0,0,0,0,0,0],
               [2,0,0,0,0,0,0],[1,0,0,0,0,0,0],[2,0,0,0,0,0,0]] 0 PLAYER =
     ([[1,0,0,0,0,0,0],[2,0,0,0,0,0,0],[1,0,0,0,0,0,0],
       [2,0,0,0,0,0,0],[1,0,0,0,0,0,0],[2,0,0,0,0,0,0]], False) \<and>
   drop_piece create_board 7 PLAYER = (create_board, False) \<and>
   drop_piece create_board (- 1) COMPUTER = (create_board, False)"
proof -
  let ?b = "[[1,0,0,0,0,0,0],[2,0,0,0,0,0,0],[1,0,0,0,0,0,0],
             [2,0,0,0,0,0,0],[1,0,0,0,0,0,0],[2,0,0,0,0,0,0]] :: board"
  have full: "column_full ?b 0"
    by (simp add: column_full_def py_ranges cell_def)
  then have "(0::int) < 0 \<or> 0 \<ge> COLUMN_COUNT \<or> column_full ?b 0" by simp
  from rejected_drop_is_noop[OF this, of PLAYER]
    rejected_drop_is_noop[of 7 create_board PLAYER]
    rejected_drop_is_noop[of "- 1" create_board COMPUTER] full
  show ?thesis by simp
qed

subsection \<open>Wins\<close>

lemma window_cells_eq:
  "window_cells r c d =
     [(r, c), (r + fst d, c + snd d), (r + 2 * fst d, c + 2 * snd d),
      (r + 3 * fst d, c + 3 * snd d)]"
  by (simp add: window_cells_def py_ranges)

lemma in_all_windows:
  "w \<in> set all_windows \<longleftrightarrow>
     (\<exists>d r c. d \<in> set directions \<and> 0 \<le> r \<and> r < 6 \<and> 0 \<le> c \<and> c < 7 \<and>
        in_board (r + 3 * fst d) (c + 3 * snd d) \<and> w = window_cells r c d)"
proof -
  have dir: "\<And>d. d \<in> set directions \<Longrightarrow> fst d \<in> {-1, 0, 1} \<and> snd d \<in> {0, 1}"
    by (auto simp: directions_def)
  have inb: "list_all (\<lambda>(r, c). in_board r c) (window_cells r c d) \<longleftrightarrow>
               in_board (r + 3 * fst d) (c + 3 * snd d)"
    if "d \<in> set directions" "0 \<le> r" "r < 6" "0 \<le> c" "c < 7" for d r c
    using dir[OF that(1)] that(2-) by (auto simp: window_cells_eq in_board_def)
  have cand: "w \<in> set (concat (map (\<lambda>d. concat (map (\<lambda>r. map (\<lambda>c. window_cells r c d)
                     (py_range COLUMN_COUNT)) (py_range ROW_COUNT))) directions)) \<longleftrightarrow>
      (\<exists>d r c. d \<in> set directions \<and> 0 \<le> r \<and> r < 6 \<and> 0 \<le> c \<and> c < 7 \<and> w = window_cells r c d)"
    by (fastforce simp: set_py_range)
  show ?thesis
  proof
    assume "w \<in> set all_windows"
    then have 1: "list_all (\<lambda>(r, c). in_board r c) w" and 2: "\<exists>d r c. d \<in> set directions \<and> 0 \<le> r \<and> r < 6 \<and> 0 \<le> c \<and> c < 7 \<and> w = window_cells r c d"
      using cand by (simp_all add: all_windows_def)
    from 2 obtain d r c where *: "d \<in> set directions" "0 \<le> r" "r < 6" "0 \<le> c" "c < 7"
      "w = window_cells r c d" by blast
    with 1 inb[OF *(1-5)] have "in_board (r + 3 * fst d) (c + 3 * snd d)" by simp
    with * show "\<exists>d r c. d \<in> set directions \<and> 0 \<le> r \<and> r < 6 \<and> 0 \<le> c \<and> c < 7 \<and>
        in_board (r + 3 * fst d) (c + 3 * snd d) \<and> w = window_cells r c d" by blast
  next
    assume "\<exists>d r c. d \<in> set directions \<and> 0 \<le> r \<and> r < 6 \<and> 0 \<le> c \<and> c < 7 \<and>
        in_board (r + 3 * fst d) (c + 3 * snd d) \<and> w = window_cells r c d"
    then obtain d r c where *: "d \<in> set directions" "0 \<le> r" "r < 6" "0 \<le> c" "c < 7"
      "in_board (r + 3 * fst d) (c + 3 * snd d)" "w = window_cells r c d" by blast
    then have "list_all (\<lambda>(r, c). in_board r c) w" using inb[OF *(1-5)] by simp
    moreover have "w \<in> set (concat (map (\<lambda>d. concat (map (\<lambda>r. map (\<lambda>c. window_cells r c d)
                     (py_range COLUMN_COUNT)) (py_range ROW_COUNT))) directions))"
      using * cand by blast
    ultimately show "w \<in> set all_windows" by (simp add: all_windows_def)
  qed
qed

lemma has_line_iff:
  "has_line b p \<longleftrightarrow>
     (\<exists>d r c. d \<in> set directions \<and> 0 \<le> r \<and> r < 6 \<and> 0 \<le> c \<and> c < 7 \<and>
        in_board (r + 3 * fst d) (c + 3 * snd d) \<and>
        (\<forall>i. 0 \<le> i \<and> i < 4 \<longrightarrow> cell b (r + i * fst d) (c + i * snd d) = p))"
proof -
  have "list_all (\<lambda>(r, c). cell b r c = p) (window_cells r c d) \<longleftrightarrow>
        (\<forall>i. 0 \<le> i \<and> i < 4 \<longrightarrow> cell b (r + i * fst d) (c + i * snd d) = p)" for r c d
    by (auto simp: window_cells_def list_all_iff set_py_range)
  then show ?thesis
    unfolding has_line_def list_ex_iff Bex_def in_all_windows by blast
qed

lemma check_win_iff:
  "check_win b r c \<longleftrightarrow>
     (\<exists>c0. 0 \<le> c0 \<and> c0 < 4 \<and> (\<forall>i. 0 \<le> i \<and> i < 4 \<longrightarrow> cell b r (c0 + i) = cell b r c)) \<or>
     (\<exists>r0. 0 \<le> r0 \<and> r0 < 3 \<and> (\<forall>i. 0 \<le> i \<and> i < 4 \<longrightarrow> cell b (r0 + i) c = cell b r c)) \<or>
     (\<exists>r0 c0. 0 \<le> r0 \<and> r0 < 3 \<and> 0 \<le> c0 \<and> c0 < 4 \<and>
         (\<forall>i. 0 \<le> i \<and> i < 4 \<longrightarrow> cell b (r0 + i) (c0 + i) = cell b r c)) \<or>
     (\<exists>r0 c0. 3 \<le> r0 \<and> r0 < 6 \<and> 0 \<le> c0 \<and> c0 < 4 \<and>
         (\<forall>i. 0 \<le> i \<and> i < 4 \<longrightarrow> cell b (r0 - i) (c0 + i) = cell b r c))"
  by (simp add: check_win_def Let_def list_ex_iff list_all_iff set_py_range set_py_range_from
        Bex_def Ball_def)

lemma check_any_win_iff:
  "check_any_win b p \<longleftrightarrow>
     (\<exists>r c. 0 \<le> r \<and> r < 6 \<and> 0 \<le> c \<and> c < 7 \<and> cell b r c = p \<and> check_win b r c)"
  by (simp add: check_any_win_def list_ex_iff set_py_range Bex_def)

lemma has_lineI:
  assumes "d \<in> set directions" "0 \<le> r" "r < 6" "0 \<le> c" "c < 7"
    "in_board (r + 3 * fst d) (c + 3 * snd d)"
    "\<And>i. 0 \<le> i \<Longrightarrow> i < 4 \<Longrightarrow> cell b (r + i * fst d) (c + i * snd d) = p"
  shows "has_line b p"
  unfolding has_line_iff using assms by blast

lemma check_win_has_line:
  assumes "check_win b r c" and rc: "0 \<le> r" "r < 6" "0 \<le> c" "c < 7"
  shows "has_line b (cell b r c)"
proof -
  let ?p = "cell b r c"
  from assms(1) consider
    (h) c0 where "0 \<le> c0" "c0 < 4" "\<forall>i. 0 \<le> i \<and> i < 4 \<longrightarrow> cell b r (c0 + i) = ?p"
  | (v) r0 where "0 \<le> r0" "r0 < 3" "\<forall>i. 0 \<le> i \<and> i < 4 \<longrightarrow> cell b (r0 + i) c = ?p"
  | (d) r0 c0 where "0 \<le> r0" "r0 < 3" "0 \<le> c0" "c0 < 4"
      "\<forall>i. 0 \<le> i \<and> i < 4 \<longrightarrow> cell b (r0 + i) (c0 + i) = ?p"
  | (a) r0 c0 where "3 \<le> r0" "r0 < 6" "0 \<le> c0" "c0 < 4"
      "\<forall>i. 0 \<le> i \<and> i < 4 \<longrightarrow> cell b (r0 - i) (c0 + i) = ?p"
    unfolding check_win_iff by blast
  then show ?thesis
  proof cases
    case h
    show ?thesis
      by (rule has_lineI[of "(0, 1)" r c0]) (use h rc in \<open>auto simp: directions_def in_board_def\<close>)
  next
    case v
    show ?thesis
      by (rule has_lineI[of "(1, 0)" r0 c]) (use v rc in \<open>auto simp: directions_def in_board_def\<close>)
  next
    case d
    show ?thesis
      by (rule has_lineI[of "(1, 1)" r0 c0]) (use d in \<open>auto simp: directions_def in_board_def\<close>)
  next
    case a
    show ?thesis
      by (rule has_lineI[of "(- 1, 1)" r0 c0]) (use a in \<open>auto simp: directions_def in_board_def\<close>)
  qed
qed

lemma has_line_check_win:
  assumes "has_line b p"
  shows "\<exists>r c. 0 \<le> r \<and> r < 6 \<and> 0 \<le> c \<and> c < 7 \<and> cell b r c = p \<and> check_win b r c"
proof -
  from assms obtain d r c where d: "d \<in> set directions" and rc: "0 \<le> r" "r < 6" "0 \<le> c" "c < 7"
    and inb: "in_board (r + 3 * fst d) (c + 3 * snd d)"
    and line: "\<And>i. 0 \<le> i \<Longrightarrow> i < 4 \<Longrightarrow> cell b (r + i * fst d) (c + i * snd d) = p"
    unfolding has_line_iff by blast
  have p: "cell b r c = p" using line[of 0] by simp
  from d consider "d = (0, 1)" | "d = (1, 0)" | "d = (1, 1)" | "d = (- 1, 1)"
    by (auto simp: directions_def)
  then have "check_win b r c"
  proof cases
    case 1
    then have "0 \<le> c \<and> c < 4 \<and> (\<forall>i. 0 \<le> i \<and> i < 4 \<longrightarrow> cell b r (c + i) = cell b r c)"
      using inb rc line p by (auto simp: in_board_def)
    then show ?thesis unfolding check_win_iff by blast
  next
    case 2
    then have "0 \<le> r \<and> r < 3 \<and> (\<forall>i. 0 \<le> i \<and> i < 4 \<longrightarrow> cell b (r + i) c = cell b r c)"
      using inb rc line p by (auto simp: in_board_def)
    then show ?thesis unfolding check_win_iff by blast
  next
    case 3
    then have "0 \<le> r \<and> r < 3 \<and> 0 \<le> c \<and> c < 4 \<and>
        (\<forall>i. 0 \<le> i \<and> i < 4 \<longrightarrow> cell b (r + i) (c + i) = cell b r c)"
      using inb rc line p by (auto simp: in_board_def)
    then show ?thesis unfolding check_win_iff by blast
  next
    case 4
    then have "3 \<le> r \<and> r < 6 \<and> 0 \<le> c \<and> c < 4 \<and>
        (\<forall>i. 0 \<le> i \<and> i < 4 \<longrightarrow> cell b (r - i) (c + i) = cell b r c)"
      using inb rc line p by (auto simp: in_board_def)
    then show ?thesis unfolding check_win_iff by blast
  qed
  with rc p show ?thesis by blast
qed

lemma check_any_win_has_line: "check_any_win b p \<longleftrightarrow> has_line b p"
  using check_win_has_line has_line_check_win unfolding check_any_win_iff by blast

lemma line_through_check_win:
  assumes "line_through b row col"
  shows "check_win b row col"
proof -
  define p where "p = cell b row col"
  from assms obtain w where w: "w \<in> set all_windows" "(row, col) \<in> set w"
    "list_all (\<lambda>(r, c). cell b r c = p) w"
    unfolding line_through_def list_ex_iff p_def by blast
  from w(1) obtain d r c where d: "d \<in> set directions" and rc: "0 \<le> r" "r < 6" "0 \<le> c" "c < 7"
    and inb: "in_board (r + 3 * fst d) (c + 3 * snd d)" and weq: "w = window_cells r c d"
    unfolding in_all_windows by blast
  have line: "\<And>i. 0 \<le> i \<Longrightarrow> i < 4 \<Longrightarrow> cell b (r + i * fst d) (c + i * snd d) = p"
    using w(3) unfolding weq by (auto simp: window_cells_def list_all_iff set_py_range)
  from w(2) obtain k where k: "0 \<le> k" "k < 4" "row = r + k * fst d" "col = c + k * snd d"
    unfolding weq by (auto simp: window_cells_def set_py_range)
  from d consider "d = (0, 1)" | "d = (1, 0)" | "d = (1, 1)" | "d = (- 1, 1)"
    by (auto simp: directions_def)
  then show ?thesis
  proof cases
    case 1
    then have "row = r" using k by simp
    moreover have "0 \<le> c \<and> c < 4" using 1 inb rc by (simp add: in_board_def)
    moreover have "\<forall>i. 0 \<le> i \<and> i < 4 \<longrightarrow> cell b r (c + i) = p"
      using line 1 by simp
    ultimately show ?thesis unfolding check_win_iff p_def by blast
  next
    case 2
    then have "col = c" using k by simp
    moreover have "0 \<le> r \<and> r < 3" using 2 inb rc by (simp add: in_board_def)
    moreover have "\<forall>i. 0 \<le> i \<and> i < 4 \<longrightarrow> cell b (r + i) c = p"
      using line 2 by simp
    ultimately show ?thesis unfolding check_win_iff p_def by blast
  next
    case 3
    have "0 \<le> r \<and> r < 3 \<and> 0 \<le> c \<and> c < 4" using 3 inb rc by (simp add: in_board_def)
    moreover have "\<forall>i. 0 \<le> i \<and> i < 4 \<longrightarrow> cell b (r + i) (c + i) = p"
      using line 3 by simp
    ultimately show ?thesis unfolding check_win_iff p_def by blast
  next
    case 4
    have "3 \<le> r \<and> r < 6 \<and> 0 \<le> c \<and> c < 4" using 4 inb rc by (simp add: in_board_def)
    moreover have "\<forall>i. 0 \<le> i \<and> i < 4 \<longrightarrow> cell b (r - i) (c + i) = p"
      using line 4 by simp
    ultimately show ?thesis unfolding check_win_iff p_def by blast
  qed
qed


text \<open>
  C1: \<open>check_win\<close> is to hold for a cell exactly when a line of four of the cell's piece
  goes through the cell. A line through the cell is found (\<open>line_through_check_win\<close>),
  but the function also answers \<open>True\<close> for a cell that no line goes through: on
  \<open>far_line_board\<close> the piece at row 0, column 6 is apart from the row of four in
  columns 0 to 3.
\<close>

theorem check_win_far_line:
  "check_win far_line_board 0 6 \<and> \<not> line_through far_line_board 0 6"
  by code_simp


text \<open>
  C2, as amended: \<open>is_terminal\<close> reports PLAYER as the winner exactly when PLAYER has a
  line, COMPUTER exactly when COMPUTER has a line and PLAYER has none, a draw exactly
  when the board is full and neither side has a line, and a game in progress otherwise.
\<close>

theorem is_terminal_outcome:
  "(is_terminal board = (True, Some PLAYER) \<longleftrightarrow> has_line board PLAYER) \<and>
   (is_terminal board = (True, Some COMPUTER) \<longleftrightarrow>
      has_line board COMPUTER \<and> \<not> has_line board PLAYER) \<and>
   (is_terminal board = (True, None) \<longleftrightarrow>
      board_full board \<and> \<not> has_line board PLAYER \<and> \<not> has_line board COMPUTER) \<and>
   (is_terminal board = (False, None) \<longleftrightarrow>
      \<not> board_full board \<and> \<not> has_line board PLAYER \<and> \<not> has_line board COMPUTER)"
  by (simp add: is_terminal_def check_any_win_has_line)

text \<open>
  C2 as stated fails where both sides have a line: COMPUTER has one on
  \<open>two_lines_board\<close>, and the winner reported is not COMPUTER.
\<close>

theorem is_terminal_two_lines:
  "has_line two_lines_board COMPUTER \<and> is_terminal two_lines_board \<noteq> (True, Some COMPUTER)"
  by code_simp

subsection \<open>The heuristic\<close>

lemma count_list_three:
  "x \<noteq> y \<Longrightarrow> x \<noteq> z \<Longrightarrow> y \<noteq> z \<Longrightarrow>
   count_list w x + count_list w y + count_list w z \<le> length w"
  by (induction w) auto

lemma peek_score_window_score:
  assumes "length w = 4" "side = PLAYER \<or> side = COMPUTER"
  shows "peek_score w side = window_score w side"
proof -
  have "count_list w 1 + count_list w 2 + count_list w 0 \<le> 4"
    using count_list_three[of "1::int" 2 0 w] assms(1) by simp
  then show ?thesis
    using assms(2) by (auto simp: peek_score_def window_score_def Let_def)
qed

lemma fold_add: "fold (\<lambda>x (s::int). s + f x) xs s0 = s0 + sum_list (map f xs)"
  by (induction xs arbitrary: s0) auto

lemma take4_drop:
  assumes "k + 4 \<le> length xs"
  shows "take 4 (drop k xs) = [xs ! k, xs ! (k + 1), xs ! (k + 2), xs ! (k + 3)]"
proof -
  have 1: "drop k xs = xs ! k # drop (Suc k) xs"
    using assms by (simp add: Cons_nth_drop_Suc)
  have 2: "drop (Suc k) xs = xs ! Suc k # drop (Suc (Suc k)) xs"
    using assms by (simp add: Cons_nth_drop_Suc)
  have 3: "drop (Suc (Suc k)) xs = xs ! Suc (Suc k) # drop (Suc (Suc (Suc k))) xs"
    using assms by (simp add: Cons_nth_drop_Suc)
  have 4: "drop (Suc (Suc (Suc k))) xs =
             xs ! Suc (Suc (Suc k)) # drop (Suc (Suc (Suc (Suc k)))) xs"
    using assms by (simp add: Cons_nth_drop_Suc)
  have k: "k + 1 = Suc k" "k + 2 = Suc (Suc k)" "k + 3 = Suc (Suc (Suc k))" by simp_all
  show ?thesis unfolding k by (simp add: 1 2 3 4)
qed

lemma slice_row:
  assumes "wf_board b" "0 \<le> r" "r < 6" "0 \<le> c" "c < 4"
  shows "slice (row_of b r) c (c + 4) = map (\<lambda>i. cell b r (c + i)) (py_range 4)"
proof -
  have len: "nat c + 4 \<le> length (b ! nat r)"
    using wf_board_rows[OF assms(1-3)] assms(4,5) by simp
  have "nat (c + 4) - nat c = 4" using assms by linarith
  then show ?thesis
    using assms(4) by (simp add: slice_def row_of_def cell_def py_ranges take4_drop[OF len] nat_add_distrib)
qed

lemma slice_column:
  assumes "wf_board b" "0 \<le> r" "r < 3" "0 \<le> c" "c < 7"
  shows "slice (column_of b c) r (r + 4) = map (\<lambda>i. cell b (r + i) c) (py_range 4)"
proof -
  have len: "nat r + 4 \<le> length b" using assms by (simp add: wf_board_def)
  have "nat (r + 4) - nat r = 4" using assms by linarith
  then show ?thesis
    using assms(2)
    by (simp add: slice_def column_of_def cell_def py_ranges drop_map take_map
          take4_drop[OF len] nat_add_distrib)
qed

lemma center_count:
  assumes "wf_board b"
  shows "count_list (column_of b 3) side =
         length (filter (\<lambda>r. cell b r 3 = side) (py_range 6))"
proof -
  have "length b = 6" using assms by (simp add: wf_board_def)
  then obtain r0 r1 r2 r3 r4 r5 where b: "b = [r0, r1, r2, r3, r4, r5]"
    by (auto simp: eval_nat_numeral length_Suc_conv)
  have "column_of b 3 = map (\<lambda>r. cell b r 3) (py_range 6)"
    unfolding b by (simp add: column_of_def cell_def py_ranges)
  moreover have "count_list (map f xs) x = length (filter (\<lambda>y. f y = x) xs)"
    for f :: "int \<Rightarrow> int" and xs x
    by (induction xs) auto
  ultimately show ?thesis by simp
qed

lemma heuristic_windows:
  fixes f :: "(int \<times> int) list \<Rightarrow> int"
  shows "sum_list (map f all_windows) =
     (\<Sum>r\<leftarrow>py_range 6. \<Sum>c\<leftarrow>py_range 4. f (window_cells r c (0, 1))) +
     (\<Sum>c\<leftarrow>py_range 7. \<Sum>r\<leftarrow>py_range 3. f (window_cells r c (1, 0))) +
     (\<Sum>r\<leftarrow>py_range 3. \<Sum>c\<leftarrow>py_range 4. f (window_cells r c (1, 1))) +
     (\<Sum>r\<leftarrow>py_range 3. \<Sum>c\<leftarrow>py_range 4. f (window_cells (r + 3) c (- 1, 1)))"
  by (simp add: all_windows_def directions_def py_ranges window_cells_def in_board_def ac_simps)

lemma sum_list_cong2:
  fixes f g :: "int \<Rightarrow> int \<Rightarrow> int"
  assumes "\<And>r c. r \<in> set rs \<Longrightarrow> c \<in> set cs \<Longrightarrow> f r c = g r c"
  shows "(\<Sum>r\<leftarrow>rs. \<Sum>c\<leftarrow>cs. f r c) = (\<Sum>r\<leftarrow>rs. \<Sum>c\<leftarrow>cs. g r c)"
proof -
  have "map (\<lambda>r. \<Sum>c\<leftarrow>cs. f r c) rs = map (\<lambda>r. \<Sum>c\<leftarrow>cs. g r c) rs"
  proof (rule map_cong[OF refl])
    fix r assume "r \<in> set rs"
    then have "map (\<lambda>c. f r c) cs = map (\<lambda>c. g r c) cs"
      using assms by (intro map_cong refl)
    then show "(\<Sum>c\<leftarrow>cs. f r c) = (\<Sum>c\<leftarrow>cs. g r c)"
      by (rule arg_cong[where f = sum_list])
  qed
  then show ?thesis by (rule arg_cong[where f = sum_list])
qed

text \<open>
  C6: for a side (PLAYER or COMPUTER), \<open>position_score\<close> is ten times the number of
  the side's pieces in the middle column plus, over every window of four cells along a
  row, a column or a diagonal, 100000 for four own pieces, 100 for three own and one
  empty, 10 for two own and two empty, -120 for three of the opponent and one empty,
  -15 for two of the opponent and two empty, and 0 for any other window.
\<close>

theorem position_score_heuristic:
  assumes wf: "wf_board board" and side: "side = PLAYER \<or> side = COMPUTER"
  shows "position_score board side = heuristic board side"
proof -
  let ?ws = "\<lambda>w. window_score (map (\<lambda>(r, c). cell board r c) w) side"
  have H: "peek_score (slice (row_of board r) c (c + 4)) side = ?ws (window_cells r c (0, 1))"
    if "r \<in> set (py_range 6)" "c \<in> set (py_range 4)" for r c
  proof -
    have "0 \<le> r" "r < 6" "0 \<le> c" "c < 4" using that by (simp_all add: set_py_range)
    then show ?thesis
      by (simp add: slice_row[OF wf] peek_score_window_score[OF _ side]
            window_cells_def py_range_4)
  qed
  have V: "peek_score (slice (column_of board c) r (r + 4)) side = ?ws (window_cells r c (1, 0))"
    if "c \<in> set (py_range 7)" "r \<in> set (py_range 3)" for c r
  proof -
    have "0 \<le> r" "r < 3" "0 \<le> c" "c < 7" using that by (simp_all add: set_py_range)
    then show ?thesis
      by (simp add: slice_column[OF wf] peek_score_window_score[OF _ side]
            window_cells_def py_range_4)
  qed
  have D: "peek_score (map (\<lambda>i. cell board (r + i) (c + i)) (py_range 4)) side =
             ?ws (window_cells r c (1, 1))"
    if "r \<in> set (py_range 3)" "c \<in> set (py_range 4)" for r c
    by (simp add: peek_score_window_score[OF _ side] window_cells_def py_range_4)
  have A: "peek_score (map (\<lambda>i. cell board (r + 3 - i) (c + i)) (py_range 4)) side =
             ?ws (window_cells (r + 3) c (- 1, 1))"
    if "r \<in> set (py_range 3)" "c \<in> set (py_range 4)" for r c
    by (simp add: peek_score_window_score[OF _ side] window_cells_def py_range_4)
  have "position_score board side =
      10 * int (count_list (column_of board 3) side) +
      (\<Sum>r\<leftarrow>py_range 6. \<Sum>c\<leftarrow>py_range 4. peek_score (slice (row_of board r) c (c + 4)) side) +
      (\<Sum>c\<leftarrow>py_range 7. \<Sum>r\<leftarrow>py_range 3. peek_score (slice (column_of board c) r (r + 4)) side) +
      (\<Sum>r\<leftarrow>py_range 3. \<Sum>c\<leftarrow>py_range 4.
          peek_score (map (\<lambda>i. cell board (r + i) (c + i)) (py_range 4)) side) +
      (\<Sum>r\<leftarrow>py_range 3. \<Sum>c\<leftarrow>py_range 4.
          peek_score (map (\<lambda>i. cell board (r + 3 - i) (c + i)) (py_range 4)) side)"
    by (simp add: position_score_def Let_def fold_add)
  also have "\<dots> = heuristic board side"
  proof -
    have e1: "(\<Sum>r\<leftarrow>py_range 6. \<Sum>c\<leftarrow>py_range 4.
                 peek_score (slice (row_of board r) c (c + 4)) side) =
              (\<Sum>r\<leftarrow>py_range 6. \<Sum>c\<leftarrow>py_range 4. ?ws (window_cells r c (0, 1)))"
      by (rule sum_list_cong2) (rule H)
    have e2: "(\<Sum>c\<leftarrow>py_range 7. \<Sum>r\<leftarrow>py_range 3.
                 peek_score (slice (column_of board c) r (r + 4)) side) =
              (\<Sum>c\<leftarrow>py_range 7. \<Sum>r\<leftarrow>py_range 3. ?ws (window_cells r c (1, 0)))"
      by (rule sum_list_cong2) (rule V)
    have e3: "(\<Sum>r\<leftarrow>py_range 3. \<Sum>c\<leftarrow>py_range 4.
                 peek_score (map (\<lambda>i. cell board (r + i) (c + i)) (py_range 4)) side) =
              (\<Sum>r\<leftarrow>py_range 3. \<Sum>c\<leftarrow>py_range 4. ?ws (window_cells r c (1, 1)))"
      by (rule sum_list_cong2) (rule D)
    have e4: "(\<Sum>r\<leftarrow>py_range 3. \<Sum>c\<leftarrow>py_range 4.
                 peek_score (map (\<lambda>i. cell board (r + 3 - i) (c + i)) (py_range 4)) side) =
              (\<Sum>r\<leftarrow>py_range 3. \<Sum>c\<leftarrow>py_range 4. ?ws (window_cells (r + 3) c (- 1, 1)))"
      by (rule sum_list_cong2) (rule A)
    show ?thesis
      unfolding heuristic_def heuristic_windows e1 e2 e3 e4
      by (simp add: center_count[OF wf])
  qed
  finally show ?thesis .
qed

theorem position_score_heuristic_witness:
  "wf_board far_line_board \<and> (COMPUTER = PLAYER \<or> COMPUTER = COMPUTER) \<and>
   position_score far_line_board COMPUTER = heuristic far_line_board COMPUTER"
proof -
  have wf: "wf_board far_line_board"
    by (simp add: wf_board_def far_line_board_def)
  have side: "COMPUTER = PLAYER \<or> COMPUTER = COMPUTER" by simp
  from position_score_heuristic[OF wf side] wf show ?thesis by simp
qed

subsection \<open>The search returns\<close>

lemma valid_locations_iff:
  "c \<in> set (valid_locations b) \<longleftrightarrow> 0 \<le> c \<and> c < 7 \<and> check_available_row b c \<noteq> None"
  by (auto simp: valid_locations_def set_py_range)

lemma check_available_row_range:
  "check_available_row b c = Some r \<Longrightarrow> 0 \<le> c \<and> c < 7 \<and> 0 \<le> r \<and> r < 6 \<and> cell b r c = 0"
  by (simp add: check_available_row_Some lowest_empty_row_iff)

lemma simulate_drop_Some:
  "simulate_drop b c p = Some (tmp, r) \<longleftrightarrow>
     check_available_row b c = Some r \<and> tmp = set_cell b r c p"
  by (auto simp: simulate_drop_def place_piece_def split: option.splits)

lemma simulate_drop_None:
  "simulate_drop b c p = None \<longleftrightarrow> check_available_row b c = None"
  by (auto simp: simulate_drop_def split: option.splits)

lemma simulate_drop_valid:
  assumes "c \<in> set (valid_locations b)"
  obtains tmp r where "simulate_drop b c p = Some (tmp, r)" "check_available_row b c = Some r"
    "tmp = set_cell b r c p"
  using assms unfolding valid_locations_iff
  by (cases "check_available_row b c") (auto simp: simulate_drop_Some)

lemma simulate_drop_wf:
  "wf_board b \<Longrightarrow> simulate_drop b c p = Some (tmp, r) \<Longrightarrow> wf_board tmp"
  by (auto simp: simulate_drop_Some wf_board_set_cell)

lemma set_order:
  "set (filter (\<lambda>c. c \<in> set (valid_locations b)) [3, 2, 4, 1, 5, 0, 6]) = set (valid_locations b)"
proof -
  have "c \<in> set [3, 2, 4, 1, 5, 0, 6]" if "c \<in> set (valid_locations b)" for c
    using that unfolding valid_locations_iff by auto
  then show ?thesis unfolding set_filter by blast
qed

lemma board_full_iff:
  assumes "wf_board b"
  shows "board_full b \<longleftrightarrow> (\<forall>r c. 0 \<le> r \<and> r < 6 \<and> 0 \<le> c \<and> c < 7 \<longrightarrow> cell b r c \<noteq> 0)"
proof
  assume full: "board_full b"
  show "\<forall>r c. 0 \<le> r \<and> r < 6 \<and> 0 \<le> c \<and> c < 7 \<longrightarrow> cell b r c \<noteq> 0"
  proof (intro allI impI)
    fix r c :: int
    assume rc: "0 \<le> r \<and> r < 6 \<and> 0 \<le> c \<and> c < 7"
    then have n: "nat r < 6" "nat c < 7" by linarith+
    have "length b = 6" "length (b ! nat r) = 7"
      using assms rc wf_board_rows[OF assms, of r] by (simp_all add: wf_board_def)
    with n have "nat r < length b" "nat c < length (b ! nat r)" by simp_all
    then have "b ! nat r \<in> set b" "b ! nat r ! nat c \<in> set (b ! nat r)" by simp_all
    then show "cell b r c \<noteq> 0"
      using full by (auto simp: board_full_def list_ex_iff cell_def)
  qed
next
  assume cells: "\<forall>r c. 0 \<le> r \<and> r < 6 \<and> 0 \<le> c \<and> c < 7 \<longrightarrow> cell b r c \<noteq> 0"
  have "x \<noteq> 0" if "row \<in> set b" "x \<in> set row" for row x
  proof -
    from that(1) obtain i where i: "i < length b" "row = b ! i" by (auto simp: in_set_conv_nth)
    then have len: "length row = 7" using assms by (simp add: wf_board_def list_all_length)
    from that(2) obtain j where j: "j < length row" "x = row ! j" by (auto simp: in_set_conv_nth)
    have "cell b (int i) (int j) \<noteq> 0"
      using cells i(1) j(1) len assms by (simp add: wf_board_def)
    then show ?thesis using i j by (simp add: cell_def)
  qed
  then show "board_full b" by (auto simp: board_full_def list_ex_iff)
qed

lemma not_full_valid:
  assumes "wf_board b" "\<not> board_full b"
  shows "valid_locations b \<noteq> []"
proof -
  from assms obtain r c where rc: "0 \<le> r" "r < 6" "0 \<le> c" "c < 7" "cell b r c = 0"
    unfolding board_full_iff[OF assms(1)] by blast
  then have "\<not> column_full b c"
    by (auto simp: column_full_def list_all_iff set_py_range)
  then have "check_available_row b c \<noteq> None"
    using rc by (simp add: check_available_row_None)
  then have "c \<in> set (valid_locations b)" using rc by (simp add: valid_locations_iff)
  then show ?thesis by auto
qed

lemma not_terminal_valid:
  assumes "wf_board b" "\<not> fst (is_terminal b)"
  shows "valid_locations b \<noteq> []"
  using assms not_full_valid[OF assms(1)] by (auto simp: is_terminal_def split: if_splits)

lemma random_choice_valid:
  assumes "xs \<noteq> []"
  obtains c g' where "random_choice g xs = Inr (c, g')" "c \<in> set xs"
  using assms by (simp add: random_choice_def)

lemma max_loop_returns:
  assumes rec: "\<And>tmp a be g. wf_board tmp \<Longrightarrow> \<exists>v c g'. rec tmp a be g = Inr (v, c, g')"
    and wf: "wf_board board"
  shows "set cs \<subseteq> set (valid_locations board) \<Longrightarrow>
         \<exists>v bc g'. max_loop rec board cs alpha beta val best g = Inr (v, bc, g') \<and>
                    (bc = best \<or> (\<exists>c\<in>set cs. bc = Some c))"
proof (induction cs arbitrary: alpha val best g)
  case Nil
  then show ?case by simp
next
  case (Cons c cs)
  then have "c \<in> set (valid_locations board)" by simp
  then obtain tmp r where drop: "simulate_drop board c COMPUTER = Some (tmp, r)"
    by (rule simulate_drop_valid)
  then have "wf_board tmp" using wf by (rule simulate_drop_wf[rotated])
  then obtain ns col g1 where r: "rec tmp alpha beta g = Inr (ns, col, g1)"
    using rec by blast
  define val' where "val' = (if ns > val then ns else val)"
  define best' where "best' = (if ns > val then Some c else best)"
  have step: "max_loop rec board (c # cs) alpha beta val best g =
      (if max alpha val' \<ge> beta then Inr (val', best', g1)
       else max_loop rec board cs (max alpha val') beta val' best' g1)"
    using drop r by (simp add: val'_def best'_def Let_def)
  show ?case
  proof (cases "max alpha val' \<ge> beta")
    case True
    then show ?thesis unfolding step by (auto simp: best'_def)
  next
    case False
    from Cons.prems have "set cs \<subseteq> set (valid_locations board)" by simp
    from Cons.IH[OF this, of "max alpha val'" val' best' g1]
    show ?thesis unfolding step using False by (auto simp: best'_def)
  qed
qed

lemma min_loop_returns:
  assumes rec: "\<And>tmp a be g. wf_board tmp \<Longrightarrow> \<exists>v c g'. rec tmp a be g = Inr (v, c, g')"
    and wf: "wf_board board"
  shows "set cs \<subseteq> set (valid_locations board) \<Longrightarrow>
         \<exists>v bc g'. min_loop rec board cs alpha beta val best g = Inr (v, bc, g') \<and>
                    (bc = best \<or> (\<exists>c\<in>set cs. bc = Some c))"
proof (induction cs arbitrary: beta val best g)
  case Nil
  then show ?case by simp
next
  case (Cons c cs)
  then have "c \<in> set (valid_locations board)" by simp
  then obtain tmp r where drop: "simulate_drop board c PLAYER = Some (tmp, r)"
    by (rule simulate_drop_valid)
  then have "wf_board tmp" using wf by (rule simulate_drop_wf[rotated])
  then obtain ns col g1 where r: "rec tmp alpha beta g = Inr (ns, col, g1)"
    using rec by blast
  define val' where "val' = (if ns < val then ns else val)"
  define best' where "best' = (if ns < val then Some c else best)"
  have step: "min_loop rec board (c # cs) alpha beta val best g =
      (if alpha \<ge> min beta val' then Inr (val', best', g1)
       else min_loop rec board cs alpha (min beta val') val' best' g1)"
    using drop r by (simp add: val'_def best'_def Let_def)
  show ?case
  proof (cases "alpha \<ge> min beta val'")
    case True
    then show ?thesis unfolding step by (auto simp: best'_def)
  next
    case False
    from Cons.prems have "set cs \<subseteq> set (valid_locations board)" by simp
    from Cons.IH[OF this, of "min beta val'" val' best' g1]
    show ?thesis unfolding step using False by (auto simp: best'_def)
  qed
qed

lemma pick_column_returns:
  assumes "valid \<noteq> []" "res = Inr (v, bc, g')" "\<And>c. bc = Some c \<Longrightarrow> c \<in> set valid"
  shows "\<exists>c g''. pick_column valid res = Inr (v, Some c, g'') \<and> c \<in> set valid"
proof (cases bc)
  case None
  from assms(1) obtain c g'' where "random_choice g' valid = Inr (c, g'')" "c \<in> set valid"
    by (rule random_choice_valid)
  then show ?thesis using None assms(2) by (simp add: pick_column_def)
next
  case (Some c)
  then show ?thesis using assms(2,3) by (simp add: pick_column_def)
qed

lemma minimax_leaf_returns: "\<exists>v. minimax_leaf b g = Inr (v, None, g)"
  by (simp add: minimax_leaf_def split: prod.splits)

lemma set_ordered_moves: "set (ordered_moves b) = set (valid_locations b)"
  unfolding ordered_moves_def by (rule set_order)

lemma minimax_node_max:
  "minimax_node rec board alpha beta True g =
     (case find (wins_at board COMPUTER) (ordered_moves board) of
        Some c \<Rightarrow> Inr (PosInf, Some c, g)
      | None \<Rightarrow> pick_column (valid_locations board)
                  (max_loop (\<lambda>tmp alpha beta g. rec tmp alpha beta False g) board
                     (ordered_moves board) alpha beta NegInf None g))"
  unfolding minimax_node_def ordered_columns_returns ordered_moves_def Let_def
  by (simp only: option.case if_True if_False)

lemma minimax_node_min:
  "minimax_node rec board alpha beta False g =
     (case find (wins_at board PLAYER) (ordered_moves board) of
        Some c \<Rightarrow> Inr (NegInf, Some c, g)
      | None \<Rightarrow> pick_column (valid_locations board)
                  (min_loop (\<lambda>tmp alpha beta g. rec tmp alpha beta True g) board
                     (ordered_moves board) alpha beta PosInf None g))"
  unfolding minimax_node_def ordered_columns_returns ordered_moves_def Let_def
  by (simp only: option.case if_True if_False)

lemma minimax_leaf_step:
  "depth = 0 \<or> fst (is_terminal board) \<Longrightarrow>
   minimax board depth alpha beta maximizing g = minimax_leaf board g"
  by (subst minimax.simps) simp

lemma minimax_node_step:
  "\<not> (depth = 0 \<or> fst (is_terminal board)) \<Longrightarrow>
   minimax board depth alpha beta maximizing g =
     minimax_node (\<lambda>tmp alpha beta maximizing g. minimax tmp (depth - 1) alpha beta maximizing g)
       board alpha beta maximizing g"
  by (subst minimax.simps) simp

lemma find_in_set: "find P xs = Some x \<Longrightarrow> x \<in> set xs \<and> P x"
  by (auto simp: find_Some_iff)

lemma minimax_node_returns:
  assumes rec: "\<And>tmp a be m g. wf_board tmp \<Longrightarrow> \<exists>v c g'. rec tmp a be m g = Inr (v, c, g')"
    and wf: "wf_board board" and valid: "valid_locations board \<noteq> []"
  shows "\<exists>v c g'. minimax_node rec board alpha beta maximizing g = Inr (v, Some c, g') \<and>
                   c \<in> set (valid_locations board)"
proof (cases maximizing)
  case True
  then have m: "maximizing = True" by simp
  show ?thesis
  proof (cases "find (wins_at board COMPUTER) (ordered_moves board)")
    case (Some c)
    then have "c \<in> set (valid_locations board)"
      using find_in_set[OF Some] by (simp add: set_ordered_moves)
    then show ?thesis unfolding m minimax_node_max Some by simp
  next
    case None
    have "set (ordered_moves board) \<subseteq> set (valid_locations board)"
      by (simp add: set_ordered_moves)
    from max_loop_returns[of "\<lambda>tmp alpha beta g. rec tmp alpha beta False g" board
        "ordered_moves board" alpha beta NegInf None g, OF rec wf this]
    obtain v bc g' where l: "max_loop (\<lambda>tmp alpha beta g. rec tmp alpha beta False g) board
        (ordered_moves board) alpha beta NegInf None g = Inr (v, bc, g')"
        "bc = None \<or> (\<exists>c\<in>set (ordered_moves board). bc = Some c)"
      by blast
    have "\<And>c. bc = Some c \<Longrightarrow> c \<in> set (valid_locations board)"
      using l(2) by (auto simp: set_ordered_moves)
    from pick_column_returns[OF valid l(1) this]
    show ?thesis unfolding m minimax_node_max None by (simp only: option.case) blast
  qed
next
  case False
  then have m: "maximizing = False" by simp
  show ?thesis
  proof (cases "find (wins_at board PLAYER) (ordered_moves board)")
    case (Some c)
    then have "c \<in> set (valid_locations board)"
      using find_in_set[OF Some] by (simp add: set_ordered_moves)
    then show ?thesis unfolding m minimax_node_min Some by simp
  next
    case None
    have "set (ordered_moves board) \<subseteq> set (valid_locations board)"
      by (simp add: set_ordered_moves)
    from min_loop_returns[of "\<lambda>tmp alpha beta g. rec tmp alpha beta True g" board
        "ordered_moves board" alpha beta PosInf None g, OF rec wf this]
    obtain v bc g' where l: "min_loop (\<lambda>tmp alpha beta g. rec tmp alpha beta True g) board
        (ordered_moves board) alpha beta PosInf None g = Inr (v, bc, g')"
        "bc = None \<or> (\<exists>c\<in>set (ordered_moves board). bc = Some c)"
      by blast
    have "\<And>c. bc = Some c \<Longrightarrow> c \<in> set (valid_locations board)"
      using l(2) by (auto simp: set_ordered_moves)
    from pick_column_returns[OF valid l(1) this]
    show ?thesis unfolding m minimax_node_min None by (simp only: option.case) blast
  qed
qed

lemma minimax_returns:
  "wf_board board \<Longrightarrow> \<exists>v c g'. minimax board depth alpha beta maximizing g = Inr (v, c, g')"
proof (induction depth arbitrary: board alpha beta maximizing g)
  case 0
  then show ?case using minimax_leaf_returns[of board g] by (simp add: minimax_leaf_step) blast
next
  case (Suc depth)
  show ?case
  proof (cases "fst (is_terminal board)")
    case True
    then show ?thesis
      using minimax_leaf_returns[of board g] by (simp add: minimax_leaf_step) blast
  next
    case False
    have valid: "valid_locations board \<noteq> []"
      using not_terminal_valid[OF Suc.prems] False by simp
    have step: "minimax board (Suc depth) alpha beta maximizing g =
        minimax_node (\<lambda>tmp alpha beta maximizing g. minimax tmp depth alpha beta maximizing g)
          board alpha beta maximizing g"
      using False by (simp add: minimax_node_step)
    from minimax_node_returns[of "\<lambda>tmp alpha beta maximizing g. minimax tmp depth alpha beta maximizing g",
        OF Suc.IH Suc.prems valid, of alpha beta maximizing g]
    show ?thesis unfolding step by blast
  qed
qed

lemma winning_moves_valid:
  "c \<in> set (winning_moves b p) \<Longrightarrow> c \<in> set (valid_locations b) \<and> wins_at b p c"
  by (simp add: winning_moves_def)

lemma minimax_legal:
  assumes "wf_board board" and "\<not> fst (is_terminal board)" and "0 < depth"
  shows "\<exists>v c g'. minimax board depth alpha beta maximizing g = Inr (v, Some c, g') \<and>
                   c \<in> set (valid_locations board)"
proof -
  have valid: "valid_locations board \<noteq> []"
    using not_terminal_valid[OF assms(1,2)] .
  have step: "minimax board depth alpha beta maximizing g =
      minimax_node (\<lambda>tmp alpha beta maximizing g. minimax tmp (depth - 1) alpha beta maximizing g)
        board alpha beta maximizing g"
    using assms(2,3) by (simp add: minimax_node_step)
  from minimax_node_returns[of "\<lambda>tmp alpha beta maximizing g. minimax tmp (depth - 1) alpha beta maximizing g",
      OF minimax_returns assms(1) valid, of alpha beta maximizing g]
  show ?thesis unfolding step by blast
qed

lemma ai_best_move_legal:
  assumes "wf_board board" and "\<not> fst (is_terminal board)"
  shows "\<exists>c g'. ai_best_move board g = Inr (c, g') \<and> c \<in> set (valid_locations board)"
proof (cases "winning_moves board COMPUTER = []")
  case False
  then have "winning_moves board COMPUTER ! 0 \<in> set (winning_moves board COMPUTER)"
    by simp
  then have "winning_moves board COMPUTER ! 0 \<in> set (valid_locations board)"
    using winning_moves_valid by blast
  then show ?thesis using False
    by (simp add: ai_best_move_def Let_def)
next
  case True
  note no_win = this
  show ?thesis
  proof (cases "winning_moves board PLAYER = []")
    case False
    then have "winning_moves board PLAYER ! 0 \<in> set (winning_moves board PLAYER)"
      by simp
    then have "winning_moves board PLAYER ! 0 \<in> set (valid_locations board)"
      using winning_moves_valid by blast
    then show ?thesis using False no_win
      by (simp add: ai_best_move_def Let_def)
  next
    case True
    from minimax_legal[OF assms, of AI_DEPTH NegInf PosInf True g]
    obtain v c g' where "minimax board AI_DEPTH NegInf PosInf True g = Inr (v, Some c, g')"
      "c \<in> set (valid_locations board)" by auto
    then show ?thesis using True no_win
      by (simp add: ai_best_move_def Let_def)
  qed
qed

text \<open>
  C8: on a board of the game that is not terminal, \<open>minimax\<close> at a depth of at least one
  returns, for any window and either side, a column that is one of the valid locations of
  the board, and so does \<open>ai_best_move\<close>. Neither fails: the failure values of the
  model are not returned.
\<close>

theorem minimax_returns_legal_column:
  assumes "wf_board board" and "\<not> fst (is_terminal board)" and "0 < depth"
  shows "(\<exists>v c g'. minimax board depth alpha beta maximizing g = Inr (v, Some c, g') \<and>
                    c \<in> set (valid_locations board)) \<and>
         (\<exists>c g'. ai_best_move board g = Inr (c, g') \<and> c \<in> set (valid_locations board))"
  using minimax_legal[OF assms] ai_best_move_legal[OF assms(1,2)] by blast

theorem minimax_returns_legal_column_witness:
  "wf_board create_board \<and> \<not> fst (is_terminal create_board) \<and> (0::nat) < 1 \<and>
   (\<exists>v c g'. minimax create_board 1 NegInf PosInf True (\<lambda>_. 0) = Inr (v, Some c, g') \<and>
              c \<in> set (valid_locations create_board)) \<and>
   (\<exists>c g'. ai_best_move create_board (\<lambda>_. 0) = Inr (c, g') \<and>
            c \<in> set (valid_locations create_board))"
proof -
  have 1: "\<not> fst (is_terminal create_board)" by code_simp
  from minimax_returns_legal_column[OF wf_create_board 1,
      where depth = 1 and alpha = NegInf and beta = PosInf and maximizing = True and g = "\<lambda>_. 0"]
    wf_create_board 1
  show ?thesis by simp
qed

subsection \<open>The move of the computer\<close>

lemma window_nonneg:
  assumes "d \<in> set directions" "0 \<le> r0" "0 \<le> c0" "in_board (r0 + 3 * fst d) (c0 + 3 * snd d)"
    "0 \<le> i" "i < 4"
  shows "0 \<le> r0 + i * fst d \<and> 0 \<le> c0 + i * snd d"
  using assms by (auto simp: directions_def in_board_def)

lemma drop_line_through:
  assumes wf: "wf_board b" and drop: "simulate_drop b c side = Some (tmp, r)"
    and noline: "\<not> has_line b side" and line: "has_line tmp side"
  shows "line_through tmp r c"
proof -
  from drop have car: "check_available_row b c = Some r" and tmp: "tmp = set_cell b r c side"
    by (simp_all add: simulate_drop_Some)
  from car have rc: "0 \<le> c" "c < 7" "0 \<le> r" "r < 6"
    using check_available_row_range by blast+
  have at: "cell tmp r c = side"
    unfolding tmp using cell_set_cell[OF wf rc(3,4,1,2) rc(3,1), of side] by simp
  from line obtain d r0 c0 where d: "d \<in> set directions"
    and s: "0 \<le> r0" "r0 < 6" "0 \<le> c0" "c0 < 7"
    and e: "in_board (r0 + 3 * fst d) (c0 + 3 * snd d)"
    and cells: "\<And>i. 0 \<le> i \<Longrightarrow> i < 4 \<Longrightarrow> cell tmp (r0 + i * fst d) (c0 + i * snd d) = side"
    unfolding has_line_iff by blast
  have "\<exists>k. 0 \<le> k \<and> k < 4 \<and> r = r0 + k * fst d \<and> c = c0 + k * snd d"
  proof (rule ccontr)
    assume no: "\<not> (\<exists>k. 0 \<le> k \<and> k < 4 \<and> r = r0 + k * fst d \<and> c = c0 + k * snd d)"
    have "cell b (r0 + i * fst d) (c0 + i * snd d) = side" if i: "0 \<le> i" "i < 4" for i
    proof -
      have nn: "0 \<le> r0 + i * fst d" "0 \<le> c0 + i * snd d"
        using window_nonneg[OF d s(1,3) e i] by simp_all
      have neq: "\<not> (r0 + i * fst d = r \<and> c0 + i * snd d = c)" using no i by auto
      have "cell tmp (r0 + i * fst d) (c0 + i * snd d) = cell b (r0 + i * fst d) (c0 + i * snd d)"
        unfolding tmp by (simp only: cell_set_cell[OF wf rc(3,4,1,2) nn] neq if_False)
      then show ?thesis using cells[OF i] by simp
    qed
    then have "has_line b side" using has_lineI[OF d s e] by blast
    then show False using noline by simp
  qed
  then obtain k where k: "0 \<le> k" "k < 4" "r = r0 + k * fst d" "c = c0 + k * snd d" by blast
  have mem: "(r, c) \<in> set (window_cells r0 c0 d)"
    using k by (auto simp: window_cells_def set_py_range)
  have win: "window_cells r0 c0 d \<in> set all_windows"
    unfolding in_all_windows using d s e by blast
  have "list_all (\<lambda>(r', c'). cell tmp r' c' = cell tmp r c) (window_cells r0 c0 d)"
    unfolding at using cells by (auto simp: window_cells_def list_all_iff set_py_range)
  with mem win show ?thesis unfolding line_through_def list_ex_iff by blast
qed

lemma not_terminal_no_line:
  assumes "\<not> fst (is_terminal b)"
  shows "\<not> has_line b PLAYER \<and> \<not> has_line b COMPUTER"
  using assms by (auto simp: is_terminal_def check_any_win_has_line split: if_splits)

lemma wins_at_immediate_win:
  assumes wf: "wf_board b" and nt: "\<not> fst (is_terminal b)"
    and side: "side = PLAYER \<or> side = COMPUTER"
  shows "wins_at b side c \<longleftrightarrow> immediate_win b side c"
proof (cases "simulate_drop b c side")
  case None
  then show ?thesis by (simp add: wins_at_def immediate_win_def)
next
  case (Some a)
  then obtain tmp r where drop: "simulate_drop b c side = Some (tmp, r)" by (cases a) auto
  from drop have car: "check_available_row b c = Some r" and tmp: "tmp = set_cell b r c side"
    by (simp_all add: simulate_drop_Some)
  from car have rc: "0 \<le> c" "c < 7" "0 \<le> r" "r < 6"
    using check_available_row_range by blast+
  have at: "cell tmp r c = side"
    unfolding tmp using cell_set_cell[OF wf rc(3,4,1,2) rc(3,1), of side] by simp
  have noline: "\<not> has_line b side" using not_terminal_no_line[OF nt] side by auto
  have "check_win tmp r c \<longleftrightarrow> line_through tmp r c"
  proof
    assume "check_win tmp r c"
    then have "has_line tmp side" using check_win_has_line[OF _ rc(3,4,1,2), of tmp] at by simp
    then show "line_through tmp r c" using drop_line_through[OF wf drop noline] by simp
  next
    assume "line_through tmp r c"
    then show "check_win tmp r c" by (rule line_through_check_win)
  qed
  then show ?thesis by (simp add: wins_at_def immediate_win_def drop)
qed

lemma wins_at_valid: "wins_at b side c \<Longrightarrow> c \<in> set (valid_locations b)"
proof -
  assume "wins_at b side c"
  then obtain tmp r where "simulate_drop b c side = Some (tmp, r)"
    by (auto simp: wins_at_def split: option.splits)
  then have car: "check_available_row b c = Some r" by (simp add: simulate_drop_Some)
  then show ?thesis
    using check_available_row_range[OF car] by (simp add: valid_locations_iff)
qed

lemma winning_moves_nonempty:
  "winning_moves b side \<noteq> [] \<longleftrightarrow> (\<exists>c. wins_at b side c)"
proof -
  have "set (winning_moves b side) = {c. wins_at b side c}"
    using wins_at_valid by (auto simp: winning_moves_def)
  then show ?thesis by (metis empty_Collect_eq set_empty)
qed

lemma winning_moves_first:
  assumes "winning_moves b side \<noteq> []"
  shows "wins_at b side (winning_moves b side ! 0)"
proof -
  from assms have "winning_moves b side ! 0 \<in> set (winning_moves b side)" by simp
  then show ?thesis using winning_moves_valid by blast
qed

subsection \<open>The shortcut of the search\<close>

text \<open>
  C4: at any node of the search with depth above zero and a board of the game that is not
  terminal, for any window, when some move of the node's list wins at once for the side to
  move (COMPUTER at a maximizing node, PLAYER at a minimizing one: the piece dropped there
  lands in a line of four through it), \<open>minimax\<close> returns the first such column of the
  list, a valid location, with the score plus infinity (maximizing) or minus infinity
  (minimizing), and the random state it was given. No recursive call is made: the node
  returns the same whatever the function called for the children is.
\<close>

theorem minimax_immediate_win:
  assumes "wf_board board" and "0 < depth" and "\<not> fst (is_terminal board)"
    and "\<exists>c\<in>set (ordered_moves board).
           immediate_win board (if maximizing then COMPUTER else PLAYER) c"
  shows "\<exists>c. find (immediate_win board (if maximizing then COMPUTER else PLAYER))
                 (ordered_moves board) = Some c \<and>
             c \<in> set (valid_locations board) \<and>
             immediate_win board (if maximizing then COMPUTER else PLAYER) c \<and>
             minimax board depth alpha beta maximizing g =
               Inr (if maximizing then PosInf else NegInf, Some c, g) \<and>
             (\<forall>rec. minimax_node rec board alpha beta maximizing g =
               Inr (if maximizing then PosInf else NegInf, Some c, g))"
proof -
  let ?side = "if maximizing then COMPUTER else PLAYER"
  have side: "?side = PLAYER \<or> ?side = COMPUTER" by simp
  have iw: "wins_at board ?side = immediate_win board ?side"
    using wins_at_immediate_win[OF assms(1,3) side] by blast
  from assms(4) have "find (immediate_win board ?side) (ordered_moves board) \<noteq> None"
    unfolding find_None_iff by blast
  then obtain c where c: "find (immediate_win board ?side) (ordered_moves board) = Some c"
    by blast
  have cw: "find (wins_at board ?side) (ordered_moves board) = Some c"
    using c unfolding iw .
  have step: "minimax board depth alpha beta maximizing g =
      minimax_node (\<lambda>tmp alpha beta maximizing g. minimax tmp (depth - 1) alpha beta maximizing g)
        board alpha beta maximizing g"
    using assms(2,3) by (simp add: minimax_node_step)
  have node: "minimax_node rec board alpha beta maximizing g =
          Inr (if maximizing then PosInf else NegInf, Some c, g)" for rec
  proof (cases maximizing)
    case True
    then have m: "maximizing = True" by simp
    show ?thesis using cw unfolding m minimax_node_max by simp
  next
    case False
    then have m: "maximizing = False" by simp
    show ?thesis using cw unfolding m minimax_node_min by simp
  qed
  have "c \<in> set (valid_locations board)" "immediate_win board ?side c"
    using find_in_set[OF c] by (simp_all add: set_ordered_moves)
  with c node step show ?thesis by simp
qed

theorem minimax_immediate_win_witness:
  "wf_board three_in_row_board \<and> (0::nat) < 1 \<and> \<not> fst (is_terminal three_in_row_board) \<and>
   (\<exists>c\<in>set (ordered_moves three_in_row_board). immediate_win three_in_row_board COMPUTER c) \<and>
   immediate_win three_in_row_board COMPUTER 3 \<and>
   minimax three_in_row_board 1 NegInf PosInf True (\<lambda>_. 0) = Inr (PosInf, Some 3, \<lambda>_. 0) \<and>
   wf_board block_board \<and> (0::nat) < 3 \<and> \<not> fst (is_terminal block_board) \<and>
   (\<exists>c\<in>set (ordered_moves block_board). immediate_win block_board PLAYER c) \<and>
   immediate_win block_board PLAYER 3 \<and>
   minimax block_board 3 (Fin 0) (Fin 5) False (\<lambda>_. 0) = Inr (NegInf, Some 3, \<lambda>_. 0)"
proof -
  have wf1: "wf_board three_in_row_board" by (simp add: wf_board_def three_in_row_board_def)
  have nt1: "\<not> fst (is_terminal three_in_row_board)" by code_simp
  have h1: "\<exists>c\<in>set (ordered_moves three_in_row_board).
              immediate_win three_in_row_board (if True then COMPUTER else PLAYER) c"
    by code_simp
  have f1: "find (immediate_win three_in_row_board (if True then COMPUTER else PLAYER))
              (ordered_moves three_in_row_board) = Some 3"
    by code_simp
  have wf2: "wf_board block_board" by (simp add: wf_board_def block_board_def)
  have nt2: "\<not> fst (is_terminal block_board)" by code_simp
  have h2: "\<exists>c\<in>set (ordered_moves block_board).
              immediate_win block_board (if False then COMPUTER else PLAYER) c"
    by code_simp
  have f2: "find (immediate_win block_board (if False then COMPUTER else PLAYER))
              (ordered_moves block_board) = Some 3"
    by code_simp
  have d1: "(0::nat) < 1" and d3: "(0::nat) < 3" by simp_all
  from minimax_immediate_win[OF wf1 d1 nt1 h1, of NegInf PosInf "\<lambda>_. 0"] f1
  have a: "immediate_win three_in_row_board COMPUTER 3 \<and>
     minimax three_in_row_board 1 NegInf PosInf True (\<lambda>_. 0) = Inr (PosInf, Some 3, \<lambda>_. 0)"
    by simp
  from minimax_immediate_win[OF wf2 d3 nt2 h2, of "Fin 0" "Fin 5" "\<lambda>_. 0"] f2
  have b: "immediate_win block_board PLAYER 3 \<and>
     minimax block_board 3 (Fin 0) (Fin 5) False (\<lambda>_. 0) = Inr (NegInf, Some 3, \<lambda>_. 0)"
    by simp
  show ?thesis using wf1 nt1 h1 a wf2 nt2 h2 b by simp
qed

subsection \<open>The three tiers of the move\<close>

text \<open>
  C3: on a board of the game that is not terminal, \<open>ai_best_move\<close> returns a column
  that wins at once for COMPUTER when there is one; otherwise a column that wins at once
  for PLAYER (the block) when there is one; otherwise the column that \<open>minimax\<close>
  returns at depth \<open>AI_DEPTH\<close> with the full window, maximizing.
\<close>

theorem ai_best_move_policy:
  assumes wf: "wf_board board" and nt: "\<not> fst (is_terminal board)"
  shows "((\<exists>c. immediate_win board COMPUTER c) \<longrightarrow>
            (\<exists>c. ai_best_move board g = Inr (c, g) \<and> immediate_win board COMPUTER c)) \<and>
         (\<not> (\<exists>c. immediate_win board COMPUTER c) \<and> (\<exists>c. immediate_win board PLAYER c) \<longrightarrow>
            (\<exists>c. ai_best_move board g = Inr (c, g) \<and> immediate_win board PLAYER c)) \<and>
         (\<not> (\<exists>c. immediate_win board COMPUTER c) \<and> \<not> (\<exists>c. immediate_win board PLAYER c) \<longrightarrow>
            (\<exists>v c g'. minimax board AI_DEPTH NegInf PosInf True g = Inr (v, Some c, g') \<and>
                       ai_best_move board g = Inr (c, g')))"
proof -
  have iw: "wins_at board side c \<longleftrightarrow> immediate_win board side c"
    if "side = PLAYER \<or> side = COMPUTER" for side c
    using wins_at_immediate_win[OF wf nt that] .
  have ne: "winning_moves board side \<noteq> [] \<longleftrightarrow> (\<exists>c. immediate_win board side c)"
    if "side = PLAYER \<or> side = COMPUTER" for side
    using iw[OF that] by (simp add: winning_moves_nonempty)
  have neC: "winning_moves board COMPUTER \<noteq> [] \<longleftrightarrow> (\<exists>c. immediate_win board COMPUTER c)"
    by (rule ne) simp
  have neP: "winning_moves board PLAYER \<noteq> [] \<longleftrightarrow> (\<exists>c. immediate_win board PLAYER c)"
    by (rule ne) simp
  have 1: "\<exists>c. ai_best_move board g = Inr (c, g) \<and> immediate_win board COMPUTER c"
    if "winning_moves board COMPUTER \<noteq> []"
  proof -
    have "immediate_win board COMPUTER (winning_moves board COMPUTER ! 0)"
      using winning_moves_first[OF that] iw[of COMPUTER] by simp
    moreover have "ai_best_move board g = Inr (winning_moves board COMPUTER ! 0, g)"
      using that by (simp add: ai_best_move_def Let_def)
    ultimately show ?thesis by blast
  qed
  have 2: "\<exists>c. ai_best_move board g = Inr (c, g) \<and> immediate_win board PLAYER c"
    if "winning_moves board COMPUTER = []" "winning_moves board PLAYER \<noteq> []"
  proof -
    have "immediate_win board PLAYER (winning_moves board PLAYER ! 0)"
      using winning_moves_first[OF that(2)] iw[of PLAYER] by simp
    moreover have "ai_best_move board g = Inr (winning_moves board PLAYER ! 0, g)"
      using that by (simp add: ai_best_move_def Let_def)
    ultimately show ?thesis by blast
  qed
  have 3: "\<exists>v c g'. minimax board AI_DEPTH NegInf PosInf True g = Inr (v, Some c, g') \<and>
                       ai_best_move board g = Inr (c, g')"
    if "winning_moves board COMPUTER = []" "winning_moves board PLAYER = []"
  proof -
    from minimax_legal[OF wf nt, of AI_DEPTH NegInf PosInf True g]
    obtain v c g' where m: "minimax board AI_DEPTH NegInf PosInf True g = Inr (v, Some c, g')"
      by auto
    then have "ai_best_move board g = Inr (c, g')"
      using that by (simp add: ai_best_move_def Let_def)
    with m show ?thesis by blast
  qed
  show ?thesis using 1 2 3 neC neP by blast
qed

theorem ai_best_move_policy_witness:
  "wf_board three_in_row_board \<and> \<not> fst (is_terminal three_in_row_board) \<and>
   immediate_win three_in_row_board COMPUTER 3 \<and>
   (\<exists>c. ai_best_move three_in_row_board (\<lambda>_. 0) = Inr (c, \<lambda>_. 0) \<and>
        immediate_win three_in_row_board COMPUTER c) \<and>
   wf_board block_board \<and> \<not> fst (is_terminal block_board) \<and>
   winning_moves block_board COMPUTER = [] \<and> immediate_win block_board PLAYER 3 \<and>
   (\<exists>c. ai_best_move block_board (\<lambda>_. 0) = Inr (c, \<lambda>_. 0) \<and>
        immediate_win block_board PLAYER c) \<and>
   wf_board create_board \<and> \<not> fst (is_terminal create_board) \<and>
   winning_moves create_board COMPUTER = [] \<and> winning_moves create_board PLAYER = [] \<and>
   (\<exists>v c g'. minimax create_board AI_DEPTH NegInf PosInf True (\<lambda>_. 0) = Inr (v, Some c, g') \<and>
              ai_best_move create_board (\<lambda>_. 0) = Inr (c, g'))"
proof -
  have wf1: "wf_board three_in_row_board" by (simp add: wf_board_def three_in_row_board_def)
  have nt1: "\<not> fst (is_terminal three_in_row_board)" by code_simp
  have w1: "immediate_win three_in_row_board COMPUTER 3" by code_simp
  have wf2: "wf_board block_board" by (simp add: wf_board_def block_board_def)
  have nt2: "\<not> fst (is_terminal block_board)" by code_simp
  have e2: "winning_moves block_board COMPUTER = []" by code_simp
  have w2: "immediate_win block_board PLAYER 3" by code_simp
  have nt3: "\<not> fst (is_terminal create_board)" by code_simp
  have e3: "winning_moves create_board COMPUTER = []" "winning_moves create_board PLAYER = []"
    by code_simp+
  have n2: "\<not> (\<exists>c. immediate_win block_board COMPUTER c)"
    using e2 wins_at_immediate_win[OF wf2 nt2, of COMPUTER] winning_moves_nonempty[of block_board COMPUTER]
    by simp
  have n3: "\<not> (\<exists>c. immediate_win create_board COMPUTER c)" "\<not> (\<exists>c. immediate_win create_board PLAYER c)"
    using e3 wins_at_immediate_win[OF wf_create_board nt3, of COMPUTER]
      wins_at_immediate_win[OF wf_create_board nt3, of PLAYER]
      winning_moves_nonempty[of create_board COMPUTER] winning_moves_nonempty[of create_board PLAYER]
    by simp_all
  from ai_best_move_policy[OF wf1 nt1, of "\<lambda>_. 0"] w1
  have a: "\<exists>c. ai_best_move three_in_row_board (\<lambda>_. 0) = Inr (c, \<lambda>_. 0) \<and>
        immediate_win three_in_row_board COMPUTER c" by blast
  from ai_best_move_policy[OF wf2 nt2, of "\<lambda>_. 0"] n2 w2
  have b: "\<exists>c. ai_best_move block_board (\<lambda>_. 0) = Inr (c, \<lambda>_. 0) \<and>
        immediate_win block_board PLAYER c" by blast
  from ai_best_move_policy[OF wf_create_board nt3, of "\<lambda>_. 0"] n3
  have c: "\<exists>v c g'. minimax create_board AI_DEPTH NegInf PosInf True (\<lambda>_. 0) = Inr (v, Some c, g') \<and>
              ai_best_move create_board (\<lambda>_. 0) = Inr (c, g')" by blast
  show ?thesis
    using wf1 nt1 w1 a wf2 nt2 e2 w2 b wf_create_board nt3 e3 c by blast
qed

subsection \<open>Alpha-beta pruning against plain minimax\<close>

lemma NegInf_least [simp]: "NegInf \<le> x"
  by (cases x) auto

lemma PosInf_greatest [simp]: "x \<le> PosInf"
  by (cases x) auto

lemma le_NegInf [simp]: "x \<le> NegInf \<longleftrightarrow> x = NegInf"
  by (cases x) auto

lemma PosInf_le [simp]: "PosInf \<le> x \<longleftrightarrow> x = PosInf"
  by (cases x) auto

lemma highest_upper: "x \<in> set xs \<Longrightarrow> x \<le> highest xs"
  by (induction xs) (auto intro: max.coboundedI2)

lemma highest_least: "(\<And>x. x \<in> set xs \<Longrightarrow> x \<le> b) \<Longrightarrow> highest xs \<le> b"
  by (induction xs) auto

lemma lowest_lower: "x \<in> set xs \<Longrightarrow> lowest xs \<le> x"
  by (induction xs) (auto intro: min.coboundedI2)

lemma lowest_greatest: "(\<And>x. x \<in> set xs \<Longrightarrow> b \<le> x) \<Longrightarrow> b \<le> lowest xs"
  by (induction xs) auto

lemma highest_set:
  assumes "set xs = set ys"
  shows "highest xs = highest ys"
  using assms by (intro antisym highest_least) (auto intro: highest_upper)

lemma lowest_set:
  assumes "set xs = set ys"
  shows "lowest xs = lowest ys"
  using assms by (intro antisym lowest_greatest) (auto intro: lowest_lower)

lemma within_refl: "within alpha beta v v"
  by (simp add: within_def)

lemma within_full: "within NegInf PosInf exact v \<Longrightarrow> v = exact"
  by (cases v; cases exact) (auto simp: within_def less_score_def)

lemma within_cut_max:
  assumes w: "within alpha beta mc ns" and "val \<le> alpha" "alpha < beta"
    and cut: "beta \<le> max alpha (max val ns)"
  shows "within alpha beta (max mc m') (max val ns)"
proof -
  have "beta \<le> ns" using assms(2,3) cut by (auto simp: max_def split: if_splits)
  then have "ns \<le> mc" "max val ns = ns" "alpha < ns"
    using w assms(2,3) by (auto simp: within_def max_def)
  then show ?thesis using \<open>beta \<le> ns\<close> by (auto simp: within_def max_def)
qed

lemma within_step_max:
  assumes w: "within alpha beta mc ns"
    and w': "within (max alpha (max val ns)) beta m' v"
    and val: "val \<le> alpha" and ab: "alpha < beta"
    and v: "max val ns \<le> v"
  shows "within alpha beta (max mc m') v"
proof -
  have ns: "ns \<le> v" and valv: "val \<le> v" using v by simp_all
  have 1: "max mc m' \<le> v" if "v \<le> alpha"
  proof -
    have "v \<le> max alpha (max val ns)" using that by (simp add: le_max_iff_disj)
    then have "m' \<le> v" using w' by (simp add: within_def)
    moreover have "ns \<le> alpha" using ns that by simp
    then have "mc \<le> ns" using w by (simp add: within_def)
    then have "mc \<le> v" using ns by simp
    ultimately show ?thesis by simp
  qed
  have 2: "v = max mc m'" if "alpha < v" "v < beta"
  proof (cases "v \<le> max alpha (max val ns)")
    case True
    then have m': "m' \<le> v" using w' by (simp add: within_def)
    from True that(1) have "v \<le> max val ns" by (auto simp: max_def split: if_splits)
    from this v have eq: "v = max val ns" by (rule antisym)
    with that(1) val have "v = ns" by (auto simp: max_def split: if_splits)
    then have "alpha < ns" "ns < beta" using that by simp_all
    then have "ns = mc" using w by (simp add: within_def)
    then show ?thesis using \<open>v = ns\<close> m' by (simp add: max_def)
  next
    case False
    then have gt: "max alpha (max val ns) < v" by (simp only: not_le)
    then have "v = m'" using w' that(2) by (simp add: within_def)
    moreover have "ns < v" using gt by simp
    have "mc \<le> v"
    proof (cases "ns \<le> alpha")
      case True
      then have "mc \<le> ns" using w by (simp add: within_def)
      then show ?thesis using ns by simp
    next
      case False
      then have "alpha < ns" "ns < beta" using \<open>ns < v\<close> that(2) by simp_all
      then have "ns = mc" using w by (simp add: within_def)
      then show ?thesis using ns by simp
    qed
    ultimately show ?thesis by (simp add: max_def)
  qed
  have 3: "v \<le> max mc m'" if "beta \<le> v"
  proof -
    have "v \<le> m'" using w' that by (simp add: within_def)
    then show ?thesis by (simp add: le_max_iff_disj)
  qed
  show ?thesis unfolding within_def using 1 2 3 by blast
qed

lemma max_loop_within:
  fixes mm :: "int \<Rightarrow> score"
  assumes rec: "\<And>c a be g. c \<in> set cs0 \<Longrightarrow> a < be \<Longrightarrow>
      \<exists>tmp r v col g'. simulate_drop board c COMPUTER = Some (tmp, r) \<and>
         rec tmp a be g = Inr (v, col, g') \<and> within a be (mm c) v"
  shows "set cs \<subseteq> set cs0 \<Longrightarrow> alpha < beta \<Longrightarrow> val \<le> alpha \<Longrightarrow>
         \<exists>v bc g'. max_loop rec board cs alpha beta val best g = Inr (v, bc, g') \<and>
                    val \<le> v \<and> within alpha beta (highest (map mm cs)) v"
proof (induction cs arbitrary: alpha val best g)
  case Nil
  then show ?case by (auto simp: within_def)
next
  case (Cons c cs)
  from Cons.prems have c: "c \<in> set cs0" and sub: "set cs \<subseteq> set cs0" by simp_all
  from rec[OF c Cons.prems(2), of g] obtain tmp r ns col g1 where
    drop: "simulate_drop board c COMPUTER = Some (tmp, r)" and
    r: "rec tmp alpha beta g = Inr (ns, col, g1)" and w: "within alpha beta (mm c) ns"
    by blast
  define val' where "val' = (if ns > val then ns else val)"
  define best' where "best' = (if ns > val then Some c else best)"
  have step: "max_loop rec board (c # cs) alpha beta val best g =
      (if max alpha val' \<ge> beta then Inr (val', best', g1)
       else max_loop rec board cs (max alpha val') beta val' best' g1)"
    using drop r by (simp add: val'_def best'_def Let_def)
  have v': "val' = max val ns" by (auto simp: val'_def max_def)
  have hi: "highest (map mm (c # cs)) = max (mm c) (highest (map mm cs))" by simp
  show ?case
  proof (cases "max alpha val' \<ge> beta")
    case True
    have "val \<le> val' \<and> within alpha beta (max (mm c) (highest (map mm cs))) val'"
      using within_cut_max[OF w Cons.prems(3,2)] True unfolding v' by simp
    then show ?thesis unfolding step hi using True by simp
  next
    case False
    then have lt: "max alpha val' < beta" using not_le by blast
    have le: "val' \<le> max alpha val'" by simp
    from Cons.IH[OF sub lt le, of best' g1] obtain v bc g' where
      l: "max_loop rec board cs (max alpha val') beta val' best' g1 = Inr (v, bc, g')"
      and v: "val' \<le> v" and w': "within (max alpha val') beta (highest (map mm cs)) v"
      by blast
    have "val \<le> v \<and> within alpha beta (max (mm c) (highest (map mm cs))) v"
      using within_step_max[OF w w'[unfolded v'] Cons.prems(3,2) v[unfolded v']] v unfolding v'
      by simp
    then show ?thesis unfolding step hi using False l by simp
  qed
qed

lemma within_cut_min:
  assumes w: "within alpha beta mc ns" and "beta \<le> val" "alpha < beta"
    and cut: "min beta (min val ns) \<le> alpha"
  shows "within alpha beta (min mc m') (min val ns)"
proof -
  have "ns \<le> alpha" using assms(2,3) cut by (auto simp: min_def not_le split: if_splits)
  then have "mc \<le> ns" "min val ns = ns" "ns < beta"
    using w assms(2,3) by (auto simp: within_def min_def)
  then show ?thesis using \<open>ns \<le> alpha\<close> by (auto simp: within_def min_def)
qed

lemma within_step_min:
  assumes w: "within alpha beta mc ns"
    and w': "within alpha (min beta (min val ns)) m' v"
    and val: "beta \<le> val" and ab: "alpha < beta"
    and v: "v \<le> min val ns"
  shows "within alpha beta (min mc m') v"
proof -
  have ns: "v \<le> ns" and valv: "v \<le> val" using v by simp_all
  have 1: "v \<le> min mc m'" if "beta \<le> v"
  proof -
    have "min beta (min val ns) \<le> v" using that by (simp add: min_le_iff_disj)
    then have "v \<le> m'" using w' by (simp add: within_def)
    moreover have "beta \<le> ns" using ns that by simp
    then have "ns \<le> mc" using w by (simp add: within_def)
    then have "v \<le> mc" using ns by simp
    ultimately show ?thesis by simp
  qed
  have 2: "v = min mc m'" if "alpha < v" "v < beta"
  proof (cases "min beta (min val ns) \<le> v")
    case True
    then have m': "v \<le> m'" using w' by (simp add: within_def)
    from True that(2) have "min val ns \<le> v" by (auto simp: min_def not_le split: if_splits)
    from v this have eq: "v = min val ns" by (rule antisym)
    with that(2) val have "v = ns" by (auto simp: min_def not_le split: if_splits)
    then have "alpha < ns" "ns < beta" using that by simp_all
    then have "ns = mc" using w by (simp add: within_def)
    then show ?thesis using \<open>v = ns\<close> m' by (simp add: min_def)
  next
    case False
    then have lt: "v < min beta (min val ns)" by (simp only: not_le)
    then have "v = m'" using w' that(1) by (simp add: within_def)
    moreover have "v < ns" using lt by simp
    have "v \<le> mc"
    proof (cases "beta \<le> ns")
      case True
      then have "ns \<le> mc" using w by (simp add: within_def)
      then show ?thesis using ns by simp
    next
      case False
      then have "ns < beta" by (simp only: not_le)
      moreover have "alpha < ns" using \<open>v < ns\<close> that(1) by simp
      ultimately have "ns = mc" using w by (simp add: within_def)
      then show ?thesis using ns by simp
    qed
    ultimately show ?thesis by (simp add: min_def)
  qed
  have 3: "min mc m' \<le> v" if "v \<le> alpha"
  proof -
    have "m' \<le> v" using w' that by (simp add: within_def)
    then show ?thesis by (simp add: min_le_iff_disj)
  qed
  show ?thesis unfolding within_def using 1 2 3 by blast
qed

lemma min_loop_within:
  fixes mm :: "int \<Rightarrow> score"
  assumes rec: "\<And>c a be g. c \<in> set cs0 \<Longrightarrow> a < be \<Longrightarrow>
      \<exists>tmp r v col g'. simulate_drop board c PLAYER = Some (tmp, r) \<and>
         rec tmp a be g = Inr (v, col, g') \<and> within a be (mm c) v"
  shows "set cs \<subseteq> set cs0 \<Longrightarrow> alpha < beta \<Longrightarrow> beta \<le> val \<Longrightarrow>
         \<exists>v bc g'. min_loop rec board cs alpha beta val best g = Inr (v, bc, g') \<and>
                    v \<le> val \<and> within alpha beta (lowest (map mm cs)) v"
proof (induction cs arbitrary: beta val best g)
  case Nil
  then show ?case by (auto simp: within_def)
next
  case (Cons c cs)
  from Cons.prems have c: "c \<in> set cs0" and sub: "set cs \<subseteq> set cs0" by simp_all
  from rec[OF c Cons.prems(2), of g] obtain tmp r ns col g1 where
    drop: "simulate_drop board c PLAYER = Some (tmp, r)" and
    r: "rec tmp alpha beta g = Inr (ns, col, g1)" and w: "within alpha beta (mm c) ns"
    by blast
  define val' where "val' = (if ns < val then ns else val)"
  define best' where "best' = (if ns < val then Some c else best)"
  have step: "min_loop rec board (c # cs) alpha beta val best g =
      (if alpha \<ge> min beta val' then Inr (val', best', g1)
       else min_loop rec board cs alpha (min beta val') val' best' g1)"
    using drop r by (simp add: val'_def best'_def Let_def)
  have v': "val' = min val ns" by (auto simp: val'_def min_def not_le not_less)
  have lo: "lowest (map mm (c # cs)) = min (mm c) (lowest (map mm cs))" by simp
  show ?case
  proof (cases "alpha \<ge> min beta val'")
    case True
    have "val' \<le> val \<and> within alpha beta (min (mm c) (lowest (map mm cs))) val'"
      using within_cut_min[OF w Cons.prems(3,2)] True unfolding v' by simp
    then show ?thesis unfolding step lo using True by simp
  next
    case False
    then have lt: "alpha < min beta val'" using not_le by blast
    have le: "min beta val' \<le> val'" by simp
    from Cons.IH[OF sub lt le, of best' g1] obtain v bc g' where
      l: "min_loop rec board cs alpha (min beta val') val' best' g1 = Inr (v, bc, g')"
      and v: "v \<le> val'" and w': "within alpha (min beta val') (lowest (map mm cs)) v"
      by blast
    have "v \<le> val \<and> within alpha beta (min (mm c) (lowest (map mm cs))) v"
      using within_step_min[OF w w'[unfolded v'] Cons.prems(3,2) v[unfolded v']] v unfolding v'
      by simp
    then show ?thesis unfolding step lo using False l by simp
  qed
qed

lemma max_loop_best:
  fixes mm :: "int \<Rightarrow> score"
  assumes rec: "\<And>c a be g. c \<in> set cs0 \<Longrightarrow> a < be \<Longrightarrow>
      \<exists>tmp r v col g'. simulate_drop board c COMPUTER = Some (tmp, r) \<and>
         rec tmp a be g = Inr (v, col, g') \<and> within a be (mm c) v"
  shows "set cs \<subseteq> set cs0 \<Longrightarrow> val < beta \<Longrightarrow>
         \<exists>v bc g'. max_loop rec board cs val beta val best g = Inr (v, bc, g') \<and>
           ((bc = best \<and> v = val) \<or>
            (\<exists>c\<in>set cs. bc = Some c \<and> val < v \<and> (v < beta \<longrightarrow> mm c = v) \<and>
                          (beta \<le> v \<longrightarrow> v \<le> mm c)))"
proof (induction cs arbitrary: val best g)
  case Nil
  then show ?case by simp
next
  case (Cons c cs)
  from Cons.prems have c: "c \<in> set cs0" and sub: "set cs \<subseteq> set cs0" by simp_all
  from rec[OF c Cons.prems(2), of g] obtain tmp r ns col g1 where
    drop: "simulate_drop board c COMPUTER = Some (tmp, r)" and
    r: "rec tmp val beta g = Inr (ns, col, g1)" and w: "within val beta (mm c) ns"
    by blast
  show ?case
  proof (cases "ns > val")
    case True
    then have m: "max val ns = ns" by (simp add: max.absorb2 less_imp_le)
    have exact: "ns < beta \<longrightarrow> mm c = ns" and bound: "beta \<le> ns \<longrightarrow> ns \<le> mm c"
      using w True by (simp_all add: within_def)
    have step: "max_loop rec board (c # cs) val beta val best g =
      (if ns \<ge> beta then Inr (ns, Some c, g1)
       else max_loop rec board cs ns beta ns (Some c) g1)"
      using drop r True by (simp add: Let_def m)
    show ?thesis
    proof (cases "ns \<ge> beta")
      case True
      then have "\<not> ns < beta" by (simp only: not_less)
      then show ?thesis unfolding step using True \<open>val < ns\<close> bound by simp
    next
      case False
      then have lt: "ns < beta" by (simp only: not_le)
      from Cons.IH[OF sub lt, of "Some c" g1] obtain v bc g' where
        l: "max_loop rec board cs ns beta ns (Some c) g1 = Inr (v, bc, g')" and
        d: "(bc = Some c \<and> v = ns) \<or>
            (\<exists>c'\<in>set cs. bc = Some c' \<and> ns < v \<and> (v < beta \<longrightarrow> mm c' = v) \<and>
                          (beta \<le> v \<longrightarrow> v \<le> mm c'))"
        by blast
      from d have "\<exists>c'\<in>set (c # cs). bc = Some c' \<and> val < v \<and> (v < beta \<longrightarrow> mm c' = v) \<and>
                          (beta \<le> v \<longrightarrow> v \<le> mm c')"
      proof
        assume "bc = Some c \<and> v = ns"
        then show ?thesis using True exact bound lt \<open>val < ns\<close> by simp
      next
        assume "\<exists>c'\<in>set cs. bc = Some c' \<and> ns < v \<and> (v < beta \<longrightarrow> mm c' = v) \<and>
                          (beta \<le> v \<longrightarrow> v \<le> mm c')"
        then obtain c' where "c' \<in> set cs" "bc = Some c'" "ns < v" "v < beta \<longrightarrow> mm c' = v"
          "beta \<le> v \<longrightarrow> v \<le> mm c'" by blast
        moreover have "val < v" using \<open>val < ns\<close> \<open>ns < v\<close> by (rule less_trans)
        ultimately show ?thesis by auto
      qed
      then show ?thesis unfolding step using False l by simp
    qed
  next
    case False
    then have m: "max val val = val" by simp
    have nb: "\<not> beta \<le> val" using Cons.prems(2) by (simp only: not_le)
    have step: "max_loop rec board (c # cs) val beta val best g =
       max_loop rec board cs val beta val best g1"
      using drop r False nb by (simp add: Let_def)
    from Cons.IH[OF sub Cons.prems(2), of best g1]
    show ?thesis unfolding step by auto
  qed
qed

lemma min_loop_best:
  fixes mm :: "int \<Rightarrow> score"
  assumes rec: "\<And>c a be g. c \<in> set cs0 \<Longrightarrow> a < be \<Longrightarrow>
      \<exists>tmp r v col g'. simulate_drop board c PLAYER = Some (tmp, r) \<and>
         rec tmp a be g = Inr (v, col, g') \<and> within a be (mm c) v"
  shows "set cs \<subseteq> set cs0 \<Longrightarrow> alpha < val \<Longrightarrow>
         \<exists>v bc g'. min_loop rec board cs alpha val val best g = Inr (v, bc, g') \<and>
           ((bc = best \<and> v = val) \<or>
            (\<exists>c\<in>set cs. bc = Some c \<and> v < val \<and> (alpha < v \<longrightarrow> mm c = v) \<and>
                          (v \<le> alpha \<longrightarrow> mm c \<le> v)))"
proof (induction cs arbitrary: val best g)
  case Nil
  then show ?case by simp
next
  case (Cons c cs)
  from Cons.prems have c: "c \<in> set cs0" and sub: "set cs \<subseteq> set cs0" by simp_all
  from rec[OF c Cons.prems(2), of g] obtain tmp r ns col g1 where
    drop: "simulate_drop board c PLAYER = Some (tmp, r)" and
    r: "rec tmp alpha val g = Inr (ns, col, g1)" and w: "within alpha val (mm c) ns"
    by blast
  show ?case
  proof (cases "ns < val")
    case True
    then have m: "min val ns = ns" by (simp add: min.absorb2 less_imp_le)
    have exact: "alpha < ns \<longrightarrow> mm c = ns" and bound: "ns \<le> alpha \<longrightarrow> mm c \<le> ns"
      using w True by (auto simp: within_def)
    have step: "min_loop rec board (c # cs) alpha val val best g =
      (if alpha \<ge> ns then Inr (ns, Some c, g1)
       else min_loop rec board cs alpha ns ns (Some c) g1)"
      using drop r True by (simp add: Let_def m)
    show ?thesis
    proof (cases "alpha \<ge> ns")
      case True
      then have "\<not> alpha < ns" by (simp only: not_less)
      then show ?thesis unfolding step using True \<open>ns < val\<close> bound by simp
    next
      case False
      then have lt: "alpha < ns" by (simp only: not_le)
      from Cons.IH[OF sub lt, of "Some c" g1] obtain v bc g' where
        l: "min_loop rec board cs alpha ns ns (Some c) g1 = Inr (v, bc, g')" and
        d: "(bc = Some c \<and> v = ns) \<or>
            (\<exists>c'\<in>set cs. bc = Some c' \<and> v < ns \<and> (alpha < v \<longrightarrow> mm c' = v) \<and>
                          (v \<le> alpha \<longrightarrow> mm c' \<le> v))"
        by blast
      from d have "\<exists>c'\<in>set (c # cs). bc = Some c' \<and> v < val \<and> (alpha < v \<longrightarrow> mm c' = v) \<and>
                          (v \<le> alpha \<longrightarrow> mm c' \<le> v)"
      proof
        assume "bc = Some c \<and> v = ns"
        then show ?thesis using True exact bound lt by simp
      next
        assume "\<exists>c'\<in>set cs. bc = Some c' \<and> v < ns \<and> (alpha < v \<longrightarrow> mm c' = v) \<and>
                          (v \<le> alpha \<longrightarrow> mm c' \<le> v)"
        then obtain c' where "c' \<in> set cs" "bc = Some c'" "v < ns" "alpha < v \<longrightarrow> mm c' = v"
          "v \<le> alpha \<longrightarrow> mm c' \<le> v" by blast
        moreover have "v < val" using \<open>v < ns\<close> \<open>ns < val\<close> by (rule less_trans)
        ultimately show ?thesis by auto
      qed
      then show ?thesis unfolding step using False l by simp
    qed
  next
    case False
    have nb: "\<not> val \<le> alpha" using Cons.prems(2) by (simp only: not_le)
    have step: "min_loop rec board (c # cs) alpha val val best g =
       min_loop rec board cs alpha val val best g1"
      using drop r False nb by (simp add: Let_def)
    from Cons.IH[OF sub Cons.prems(2), of best g1]
    show ?thesis unfolding step by auto
  qed
qed

lemma minimax_leaf_score: "minimax_leaf board g = Inr (leaf_score board, None, g)"
  by (cases "is_terminal board") (auto simp: minimax_leaf_def leaf_score_def)

lemma plain_minimax_leaf:
  "depth = 0 \<or> fst (is_terminal board) \<Longrightarrow> plain_minimax board depth m = leaf_score board"
  by (subst plain_minimax.simps) simp

lemma plain_minimax_max:
  "\<not> (depth = 0 \<or> fst (is_terminal board)) \<Longrightarrow>
   plain_minimax board depth True =
     highest (map (\<lambda>c. plain_minimax (child board COMPUTER c) (depth - 1) False)
                (valid_locations board))"
  by (subst plain_minimax.simps) simp

lemma plain_minimax_min:
  "\<not> (depth = 0 \<or> fst (is_terminal board)) \<Longrightarrow>
   plain_minimax board depth False =
     lowest (map (\<lambda>c. plain_minimax (child board PLAYER c) (depth - 1) True)
               (valid_locations board))"
  by (subst plain_minimax.simps) simp

lemma child_drop: "simulate_drop b c side = Some (tmp, r) \<Longrightarrow> child b side c = tmp"
  by (simp add: child_def)

lemma has_line_other:
  assumes wf: "wf_board b" and drop: "simulate_drop b c side = Some (tmp, r)"
    and p: "p \<noteq> side" and line: "has_line tmp p"
  shows "has_line b p"
proof -
  from drop have car: "check_available_row b c = Some r" and tmp: "tmp = set_cell b r c side"
    by (simp_all add: simulate_drop_Some)
  from car have rc: "0 \<le> c" "c < 7" "0 \<le> r" "r < 6"
    using check_available_row_range by blast+
  from line obtain d r0 c0 where d: "d \<in> set directions"
    and s: "0 \<le> r0" "r0 < 6" "0 \<le> c0" "c0 < 7"
    and e: "in_board (r0 + 3 * fst d) (c0 + 3 * snd d)"
    and cells: "\<And>i. 0 \<le> i \<Longrightarrow> i < 4 \<Longrightarrow> cell tmp (r0 + i * fst d) (c0 + i * snd d) = p"
    unfolding has_line_iff by blast
  have "cell b (r0 + i * fst d) (c0 + i * snd d) = p" if i: "0 \<le> i" "i < 4" for i
  proof -
    have nn: "0 \<le> r0 + i * fst d" "0 \<le> c0 + i * snd d"
      using window_nonneg[OF d s(1,3) e i] by simp_all
    have eq: "cell tmp (r0 + i * fst d) (c0 + i * snd d) =
          (if r0 + i * fst d = r \<and> c0 + i * snd d = c then side
           else cell b (r0 + i * fst d) (c0 + i * snd d))"
      unfolding tmp by (rule cell_set_cell[OF wf rc(3,4,1,2) nn])
    show ?thesis using cells[OF i] p unfolding eq by (auto split: if_splits)
  qed
  then show ?thesis using has_lineI[OF d s e] by blast
qed

lemma win_terminal:
  assumes wf: "wf_board b" and nt: "\<not> fst (is_terminal b)"
    and side: "side = PLAYER \<or> side = COMPUTER" and win: "wins_at b side c"
  shows "is_terminal (child b side c) = (True, Some side)"
proof -
  from win obtain tmp r where drop: "simulate_drop b c side = Some (tmp, r)"
    and cw: "check_win tmp r c"
    by (auto simp: wins_at_def split: option.splits)
  from drop have car: "check_available_row b c = Some r" and tmp: "tmp = set_cell b r c side"
    by (simp_all add: simulate_drop_Some)
  from car have rc: "0 \<le> c" "c < 7" "0 \<le> r" "r < 6"
    using check_available_row_range by blast+
  have at: "cell tmp r c = side"
    unfolding tmp using cell_set_cell[OF wf rc(3,4,1,2) rc(3,1), of side] by simp
  have line: "has_line tmp side"
    using check_win_has_line[OF cw rc(3,4,1,2)] at by simp
  have ch: "child b side c = tmp" using drop by (rule child_drop)
  from side show ?thesis
  proof
    assume "side = PLAYER"
    then show ?thesis using line unfolding ch
      by (simp add: is_terminal_def check_any_win_has_line)
  next
    assume s: "side = COMPUTER"
    have "\<not> has_line tmp PLAYER"
      using has_line_other[OF wf drop, of PLAYER] not_terminal_no_line[OF nt] s by auto
    then show ?thesis using line s unfolding ch
      by (simp add: is_terminal_def check_any_win_has_line)
  qed
qed

lemma win_value:
  assumes wf: "wf_board b" and nt: "\<not> fst (is_terminal b)" and win: "wins_at b side c"
    and side: "side = PLAYER \<or> side = COMPUTER"
  shows "plain_minimax (child b side c) d m = (if side = COMPUTER then PosInf else NegInf)"
proof -
  have t: "is_terminal (child b side c) = (True, Some side)"
    using win_terminal[OF wf nt side win] .
  then have "plain_minimax (child b side c) d m = leaf_score (child b side c)"
    by (simp add: plain_minimax_leaf)
  also have "\<dots> = (if side = COMPUTER then PosInf else NegInf)"
    using side by (auto simp: leaf_score_def t)
  finally show ?thesis .
qed

lemma pick_column_score:
  assumes "valid \<noteq> []"
  shows "\<exists>c g''. pick_column valid (Inr (v, bc, g')) = Inr (v, Some c, g'') \<and>
                  (bc = None \<longrightarrow> c \<in> set valid) \<and> (bc \<noteq> None \<longrightarrow> bc = Some c)"
proof (cases bc)
  case None
  from assms obtain c g'' where "random_choice g' valid = Inr (c, g'')" "c \<in> set valid"
    by (rule random_choice_valid)
  then show ?thesis using None by (simp add: pick_column_def)
next
  case (Some c)
  then show ?thesis by (simp add: pick_column_def)
qed

lemma children_within:
  assumes wf: "wf_board board"
    and IH: "\<And>tmp a be g. wf_board tmp \<Longrightarrow> a < be \<Longrightarrow>
       \<exists>v col g'. rec tmp a be g = Inr (v, col, g') \<and> within a be (plain_minimax tmp d m') v"
    and c: "c \<in> set (ordered_moves board)" and ab: "a < be"
  shows "\<exists>tmp r v col g'. simulate_drop board c side = Some (tmp, r) \<and>
           rec tmp a be g = Inr (v, col, g') \<and>
           within a be (plain_minimax (child board side c) d m') v"
proof -
  from c have "c \<in> set (valid_locations board)" by (simp add: set_ordered_moves)
  then obtain tmp r where drop: "simulate_drop board c side = Some (tmp, r)"
    by (rule simulate_drop_valid)
  then have wft: "wf_board tmp" using wf by (rule simulate_drop_wf[rotated])
  have ch: "child board side c = tmp" using drop by (rule child_drop)
  from IH[OF wft ab, of g] show ?thesis unfolding ch using drop by blast
qed

lemma highest_ordered:
  "highest (map f (ordered_moves b)) = highest (map f (valid_locations b))"
  by (rule highest_set) (simp add: set_ordered_moves)

lemma lowest_ordered:
  "lowest (map f (ordered_moves b)) = lowest (map f (valid_locations b))"
  by (rule lowest_set) (simp add: set_ordered_moves)

lemma minimax_within:
  "wf_board board \<Longrightarrow> alpha < beta \<Longrightarrow>
   \<exists>v col g'. minimax board depth alpha beta maximizing g = Inr (v, col, g') \<and>
               within alpha beta (plain_minimax board depth maximizing) v"
proof (induction depth arbitrary: board alpha beta maximizing g)
  case 0
  show ?case
    by (simp add: minimax_leaf_step minimax_leaf_score plain_minimax_leaf within_refl)
next
  case (Suc d)
  show ?case
  proof (cases "fst (is_terminal board)")
    case True
    then show ?thesis
      by (simp add: minimax_leaf_step minimax_leaf_score plain_minimax_leaf within_refl)
  next
    case False
    then have nl: "\<not> (Suc d = 0 \<or> fst (is_terminal board))" by simp
    have valid: "valid_locations board \<noteq> []"
      using not_terminal_valid[OF Suc.prems(1) False] .
    have step: "minimax board (Suc d) alpha beta maximizing g =
        minimax_node (\<lambda>tmp alpha beta maximizing g. minimax tmp d alpha beta maximizing g)
          board alpha beta maximizing g"
      using minimax_node_step[OF nl] by simp
    show ?thesis
    proof (cases maximizing)
      case True
      then have m: "maximizing = True" by simp
      let ?mm = "\<lambda>c. plain_minimax (child board COMPUTER c) d False"
      have plain: "plain_minimax board (Suc d) True = highest (map ?mm (valid_locations board))"
        using plain_minimax_max[OF nl] by simp
      show ?thesis
      proof (cases "find (wins_at board COMPUTER) (ordered_moves board)")
        case (Some c)
        then have c: "c \<in> set (valid_locations board)" "wins_at board COMPUTER c"
          using find_in_set[OF Some] by (simp_all add: set_ordered_moves)
        have w: "?mm c = PosInf"
          using win_value[OF Suc.prems(1) False c(2), of d False] by simp
        have "?mm c \<in> set (map ?mm (valid_locations board))" using c(1) by auto
        from highest_upper[OF this] have "PosInf \<le> highest (map ?mm (valid_locations board))"
          unfolding w .
        then have "plain_minimax board (Suc d) True = PosInf" unfolding plain by simp
        then show ?thesis unfolding m step[unfolded m] minimax_node_max Some
          by (simp add: within_refl)
      next
        case None
        have rec: "\<And>c a be g. c \<in> set (ordered_moves board) \<Longrightarrow> a < be \<Longrightarrow>
            \<exists>tmp r v col g'. simulate_drop board c COMPUTER = Some (tmp, r) \<and>
              minimax tmp d a be False g = Inr (v, col, g') \<and> within a be (?mm c) v"
          by (rule children_within[OF Suc.prems(1)]) (rule Suc.IH)
        from max_loop_within[of "ordered_moves board" board
            "\<lambda>tmp a be g. minimax tmp d a be False g" ?mm "ordered_moves board"
            alpha beta NegInf None g, OF rec _ Suc.prems(2)]
        obtain v bc g1 where
          l: "max_loop (\<lambda>tmp a be g. minimax tmp d a be False g) board (ordered_moves board)
                alpha beta NegInf None g = Inr (v, bc, g1)"
          and w: "within alpha beta (highest (map ?mm (ordered_moves board))) v"
          by auto
        from pick_column_score[OF valid, of v bc g1] obtain c g2 where
          "pick_column (valid_locations board) (Inr (v, bc, g1)) = Inr (v, Some c, g2)" by blast
        then show ?thesis unfolding m step[unfolded m] minimax_node_max None plain
          using l w by (simp add: highest_ordered)
      qed
    next
      case False
      then have m: "maximizing = False" by simp
      let ?mm = "\<lambda>c. plain_minimax (child board PLAYER c) d True"
      have plain: "plain_minimax board (Suc d) False = lowest (map ?mm (valid_locations board))"
        using plain_minimax_min[OF nl] by simp
      show ?thesis
      proof (cases "find (wins_at board PLAYER) (ordered_moves board)")
        case (Some c)
        then have c: "c \<in> set (valid_locations board)" "wins_at board PLAYER c"
          using find_in_set[OF Some] by (simp_all add: set_ordered_moves)
        have w: "?mm c = NegInf"
          using win_value[OF Suc.prems(1) \<open>\<not> fst (is_terminal board)\<close> c(2), of d True] by simp
        have "?mm c \<in> set (map ?mm (valid_locations board))" using c(1) by auto
        from lowest_lower[OF this] have "lowest (map ?mm (valid_locations board)) \<le> NegInf"
          unfolding w .
        then have "plain_minimax board (Suc d) False = NegInf" unfolding plain by simp
        then show ?thesis unfolding m step[unfolded m] minimax_node_min Some
          by (simp add: within_refl)
      next
        case None
        have rec: "\<And>c a be g. c \<in> set (ordered_moves board) \<Longrightarrow> a < be \<Longrightarrow>
            \<exists>tmp r v col g'. simulate_drop board c PLAYER = Some (tmp, r) \<and>
              minimax tmp d a be True g = Inr (v, col, g') \<and> within a be (?mm c) v"
          by (rule children_within[OF Suc.prems(1)]) (rule Suc.IH)
        from min_loop_within[of "ordered_moves board" board
            "\<lambda>tmp a be g. minimax tmp d a be True g" ?mm "ordered_moves board"
            alpha beta PosInf None g, OF rec _ Suc.prems(2)]
        obtain v bc g1 where
          l: "min_loop (\<lambda>tmp a be g. minimax tmp d a be True g) board (ordered_moves board)
                alpha beta PosInf None g = Inr (v, bc, g1)"
          and w: "within alpha beta (lowest (map ?mm (ordered_moves board))) v"
          by auto
        from pick_column_score[OF valid, of v bc g1] obtain c g2 where
          "pick_column (valid_locations board) (Inr (v, bc, g1)) = Inr (v, Some c, g2)" by blast
        then show ?thesis unfolding m step[unfolded m] minimax_node_min None plain
          using l w by (simp add: lowest_ordered)
      qed
    qed
  qed
qed

lemma minimax_score:
  assumes "wf_board board"
  shows "\<exists>col g'. minimax board depth NegInf PosInf maximizing g =
           Inr (plain_minimax board depth maximizing, col, g')"
proof -
  have "NegInf < PosInf" by (simp add: less_score_def)
  from minimax_within[OF assms this, of depth maximizing g]
  show ?thesis using within_full by blast
qed

lemma top_column_max:
  assumes wf: "wf_board board" and nt: "\<not> fst (is_terminal board)"
  shows "\<exists>v c g'. minimax board (Suc d) NegInf PosInf True g = Inr (v, Some c, g') \<and>
           c \<in> set (valid_locations board) \<and>
           plain_minimax (child board COMPUTER c) d False = v"
proof -
  let ?mm = "\<lambda>c. plain_minimax (child board COMPUTER c) d False"
  have nl: "\<not> (Suc d = 0 \<or> fst (is_terminal board))" using nt by simp
  have valid: "valid_locations board \<noteq> []" using not_terminal_valid[OF wf nt] .
  have lt: "NegInf < PosInf" by (simp add: less_score_def)
  have step: "minimax board (Suc d) NegInf PosInf True g =
      minimax_node (\<lambda>tmp alpha beta maximizing g. minimax tmp d alpha beta maximizing g)
        board NegInf PosInf True g"
    using minimax_node_step[OF nl] by simp
  have plain: "plain_minimax board (Suc d) True = highest (map ?mm (valid_locations board))"
    using plain_minimax_max[OF nl] by simp
  show ?thesis
  proof (cases "find (wins_at board COMPUTER) (ordered_moves board)")
    case (Some c)
    then have c: "c \<in> set (valid_locations board)" "wins_at board COMPUTER c"
      using find_in_set[OF Some] by (simp_all add: set_ordered_moves)
    have "?mm c = PosInf" using win_value[OF wf nt c(2), of d False] by simp
    then show ?thesis unfolding step minimax_node_max Some using c(1) by simp
  next
    case None
    have rec: "\<And>c a be g. c \<in> set (ordered_moves board) \<Longrightarrow> a < be \<Longrightarrow>
        \<exists>tmp r v col g'. simulate_drop board c COMPUTER = Some (tmp, r) \<and>
          minimax tmp d a be False g = Inr (v, col, g') \<and> within a be (?mm c) v"
      by (rule children_within[OF wf]) (rule minimax_within)
    from max_loop_best[of "ordered_moves board" board
        "\<lambda>tmp a be g. minimax tmp d a be False g" ?mm "ordered_moves board"
        NegInf PosInf None g, OF rec _ lt]
    obtain v bc g1 where
      l: "max_loop (\<lambda>tmp a be g. minimax tmp d a be False g) board (ordered_moves board)
            NegInf PosInf NegInf None g = Inr (v, bc, g1)"
      and b: "(bc = None \<and> v = NegInf) \<or>
          (\<exists>c\<in>set (ordered_moves board). bc = Some c \<and> NegInf < v \<and>
              (v < PosInf \<longrightarrow> ?mm c = v) \<and> (PosInf \<le> v \<longrightarrow> v \<le> ?mm c))"
      by auto
    from pick_column_score[OF valid, of v bc g1] obtain c g2 where
      p: "pick_column (valid_locations board) (Inr (v, bc, g1)) = Inr (v, Some c, g2)"
      and pc: "bc = None \<longrightarrow> c \<in> set (valid_locations board)" "bc \<noteq> None \<longrightarrow> bc = Some c"
      by blast
    have res: "minimax board (Suc d) NegInf PosInf True g = Inr (v, Some c, g2)"
      unfolding step minimax_node_max None using l p by simp
    have v: "v = plain_minimax board (Suc d) True"
      using minimax_score[OF wf, of "Suc d" True g] res by simp
    from b have "c \<in> set (valid_locations board) \<and> ?mm c = v"
    proof
      assume n: "bc = None \<and> v = NegInf"
      then have c: "c \<in> set (valid_locations board)" using pc by simp
      then have "?mm c \<in> set (map ?mm (valid_locations board))" by auto
      from highest_upper[OF this] have "?mm c \<le> NegInf" using v n unfolding plain by simp
      then show ?thesis using c n by simp
    next
      assume "\<exists>c\<in>set (ordered_moves board). bc = Some c \<and> NegInf < v \<and>
              (v < PosInf \<longrightarrow> ?mm c = v) \<and> (PosInf \<le> v \<longrightarrow> v \<le> ?mm c)"
      then obtain c' where c': "c' \<in> set (ordered_moves board)" "bc = Some c'"
        "v < PosInf \<longrightarrow> ?mm c' = v" "PosInf \<le> v \<longrightarrow> v \<le> ?mm c'" by blast
      then have cc: "c = c'" using pc by simp
      have "?mm c' = v"
      proof (cases "v < PosInf")
        case True
        then show ?thesis using c'(3) by simp
      next
        case False
        then have "PosInf \<le> v" by (simp only: not_less)
        then show ?thesis using c'(4) by simp
      qed
      then show ?thesis using c'(1) cc by (simp add: set_ordered_moves)
    qed
    with res show ?thesis by blast
  qed
qed

lemma top_column_min:
  assumes wf: "wf_board board" and nt: "\<not> fst (is_terminal board)"
  shows "\<exists>v c g'. minimax board (Suc d) NegInf PosInf False g = Inr (v, Some c, g') \<and>
           c \<in> set (valid_locations board) \<and>
           plain_minimax (child board PLAYER c) d True = v"
proof -
  let ?mm = "\<lambda>c. plain_minimax (child board PLAYER c) d True"
  have nl: "\<not> (Suc d = 0 \<or> fst (is_terminal board))" using nt by simp
  have valid: "valid_locations board \<noteq> []" using not_terminal_valid[OF wf nt] .
  have lt: "NegInf < PosInf" by (simp add: less_score_def)
  have step: "minimax board (Suc d) NegInf PosInf False g =
      minimax_node (\<lambda>tmp alpha beta maximizing g. minimax tmp d alpha beta maximizing g)
        board NegInf PosInf False g"
    using minimax_node_step[OF nl] by simp
  have plain: "plain_minimax board (Suc d) False = lowest (map ?mm (valid_locations board))"
    using plain_minimax_min[OF nl] by simp
  show ?thesis
  proof (cases "find (wins_at board PLAYER) (ordered_moves board)")
    case (Some c)
    then have c: "c \<in> set (valid_locations board)" "wins_at board PLAYER c"
      using find_in_set[OF Some] by (simp_all add: set_ordered_moves)
    have "?mm c = NegInf" using win_value[OF wf nt c(2), of d True] by simp
    then show ?thesis unfolding step minimax_node_min Some using c(1) by simp
  next
    case None
    have rec: "\<And>c a be g. c \<in> set (ordered_moves board) \<Longrightarrow> a < be \<Longrightarrow>
        \<exists>tmp r v col g'. simulate_drop board c PLAYER = Some (tmp, r) \<and>
          minimax tmp d a be True g = Inr (v, col, g') \<and> within a be (?mm c) v"
      by (rule children_within[OF wf]) (rule minimax_within)
    from min_loop_best[of "ordered_moves board" board
        "\<lambda>tmp a be g. minimax tmp d a be True g" ?mm "ordered_moves board"
        NegInf PosInf None g, OF rec _ lt]
    obtain v bc g1 where
      l: "min_loop (\<lambda>tmp a be g. minimax tmp d a be True g) board (ordered_moves board)
            NegInf PosInf PosInf None g = Inr (v, bc, g1)"
      and b: "(bc = None \<and> v = PosInf) \<or>
          (\<exists>c\<in>set (ordered_moves board). bc = Some c \<and> v < PosInf \<and>
              (NegInf < v \<longrightarrow> ?mm c = v) \<and> (v \<le> NegInf \<longrightarrow> ?mm c \<le> v))"
      by auto
    from pick_column_score[OF valid, of v bc g1] obtain c g2 where
      p: "pick_column (valid_locations board) (Inr (v, bc, g1)) = Inr (v, Some c, g2)"
      and pc: "bc = None \<longrightarrow> c \<in> set (valid_locations board)" "bc \<noteq> None \<longrightarrow> bc = Some c"
      by blast
    have res: "minimax board (Suc d) NegInf PosInf False g = Inr (v, Some c, g2)"
      unfolding step minimax_node_min None using l p by simp
    have v: "v = plain_minimax board (Suc d) False"
      using minimax_score[OF wf, of "Suc d" False g] res by simp
    from b have "c \<in> set (valid_locations board) \<and> ?mm c = v"
    proof
      assume n: "bc = None \<and> v = PosInf"
      then have c: "c \<in> set (valid_locations board)" using pc by simp
      then have "?mm c \<in> set (map ?mm (valid_locations board))" by auto
      from lowest_lower[OF this] have "PosInf \<le> ?mm c" using v n unfolding plain by simp
      then show ?thesis using c n by simp
    next
      assume "\<exists>c\<in>set (ordered_moves board). bc = Some c \<and> v < PosInf \<and>
              (NegInf < v \<longrightarrow> ?mm c = v) \<and> (v \<le> NegInf \<longrightarrow> ?mm c \<le> v)"
      then obtain c' where c': "c' \<in> set (ordered_moves board)" "bc = Some c'"
        "NegInf < v \<longrightarrow> ?mm c' = v" "v \<le> NegInf \<longrightarrow> ?mm c' \<le> v" by blast
      then have cc: "c = c'" using pc by simp
      have "?mm c' = v"
      proof (cases "NegInf < v")
        case True
        then show ?thesis using c'(3) by simp
      next
        case False
        then have le: "v \<le> NegInf" by (simp only: not_less)
        then have "v = NegInf" by simp
        then show ?thesis using c'(4) le by simp
      qed
      then show ?thesis using c'(1) cc by (simp add: set_ordered_moves)
    qed
    with res show ?thesis by blast
  qed
qed

text \<open>
  C5: on a board of the game, for every depth and either side, \<open>minimax\<close> called with
  the full window (minus infinity, plus infinity) returns the score of plain minimax.
  At a leaf (depth zero or a terminal board) it returns no column; at every other node it
  returns a column, a valid location whose board has that same plain-minimax value one
  level down. On \<open>cut_off_board\<close> the search at depth two cuts off the second child
  (its score there, minus ten, is only a bound of the child's value, minus 115) and still
  returns the score and a best column of plain minimax.
\<close>

theorem alpha_beta_equals_plain_minimax:
  assumes "wf_board board"
  shows "\<exists>v col g'. minimax board depth NegInf PosInf maximizing g = Inr (v, col, g') \<and>
           v = plain_minimax board depth maximizing \<and>
           (if depth = 0 \<or> fst (is_terminal board) then col = None
            else \<exists>c. col = Some c \<and> c \<in> set (valid_locations board) \<and>
              plain_minimax (child board (if maximizing then COMPUTER else PLAYER) c)
                (depth - 1) (\<not> maximizing) = v)"
proof (cases "depth = 0 \<or> fst (is_terminal board)")
  case True
  then have "minimax board depth NegInf PosInf maximizing g = Inr (leaf_score board, None, g)"
    by (simp add: minimax_leaf_step minimax_leaf_score)
  then show ?thesis using True by (simp add: plain_minimax_leaf)
next
  case False
  then obtain d where d: "depth = Suc d" and nt: "\<not> fst (is_terminal board)"
    by (cases depth) auto
  show ?thesis
  proof (cases maximizing)
    case True
    then have m: "maximizing = True" by simp
    from top_column_max[OF assms nt, of d g] obtain v c g' where
      r: "minimax board (Suc d) NegInf PosInf True g = Inr (v, Some c, g')"
      "c \<in> set (valid_locations board)" "plain_minimax (child board COMPUTER c) d False = v"
      by blast
    have "v = plain_minimax board (Suc d) True"
      using minimax_score[OF assms, of "Suc d" True g] r(1) by simp
    with r nt show ?thesis unfolding m d by simp
  next
    case False
    then have m: "maximizing = False" by simp
    from top_column_min[OF assms nt, of d g] obtain v c g' where
      r: "minimax board (Suc d) NegInf PosInf False g = Inr (v, Some c, g')"
      "c \<in> set (valid_locations board)" "plain_minimax (child board PLAYER c) d True = v"
      by blast
    have "v = plain_minimax board (Suc d) False"
      using minimax_score[OF assms, of "Suc d" False g] r(1) by simp
    with r nt show ?thesis unfolding m d by simp
  qed
qed

theorem alpha_beta_equals_plain_minimax_witness:
  "wf_board cut_off_board \<and>
   (\<exists>g'. minimax cut_off_board 2 NegInf PosInf True (\<lambda>_. 0) = Inr (Fin 95, Some 2, g')) \<and>
   plain_minimax cut_off_board 2 True = Fin 95 \<and>
   2 \<in> set (valid_locations cut_off_board) \<and>
   plain_minimax (child cut_off_board COMPUTER 2) 1 False = Fin 95 \<and>
   (\<exists>g'. minimax (child cut_off_board COMPUTER 4) 1 (Fin 95) PosInf False (\<lambda>_. 0) =
           Inr (Fin (- 10), Some 2, g')) \<and>
   plain_minimax (child cut_off_board COMPUTER 4) 1 False = Fin (- 115)"
proof -
  have wf: "wf_board cut_off_board" by (simp add: wf_board_def cut_off_board_def)
  have nt: "\<not> fst (is_terminal cut_off_board)" by code_simp
  have root: "(case minimax cut_off_board 2 NegInf PosInf True (\<lambda>_. 0) of
      Inl _ \<Rightarrow> False | Inr (v, c, _) \<Rightarrow> v = Fin 95 \<and> c = Some 2)"
    by code_simp
  have cut: "(case minimax (child cut_off_board COMPUTER 4) 1 (Fin 95) PosInf False (\<lambda>_. 0) of
      Inl _ \<Rightarrow> False | Inr (v, c, _) \<Rightarrow> v = Fin (- 10) \<and> c = Some 2)"
    by code_simp
  have exact: "plain_minimax (child cut_off_board COMPUTER 4) 1 False = Fin (- 115)"
    by code_simp
  from alpha_beta_equals_plain_minimax[OF wf, of 2 True "\<lambda>_. 0"] nt
  obtain v c g' where
    r: "minimax cut_off_board 2 NegInf PosInf True (\<lambda>_. 0) = Inr (v, Some c, g')"
      "v = plain_minimax cut_off_board 2 True" "c \<in> set (valid_locations cut_off_board)"
      "plain_minimax (child cut_off_board COMPUTER c) 1 False = v"
    by auto
  from root r(1) have vc: "v = Fin 95" "c = 2" by simp_all
  have 1: "\<exists>g'. minimax cut_off_board 2 NegInf PosInf True (\<lambda>_. 0) = Inr (Fin 95, Some 2, g')"
    using r(1) vc by blast
  have 2: "\<exists>g'. minimax (child cut_off_board COMPUTER 4) 1 (Fin 95) PosInf False (\<lambda>_. 0) =
           Inr (Fin (- 10), Some 2, g')"
    using cut by (auto split: sum.splits)
  show ?thesis using wf 1 2 r(2,3,4) vc exact by simp
qed

subsection \<open>The search leaves the boards of the caller alone\<close>

lemma extends_refl: "extends s s"
  by (simp add: extends_def)

lemma extends_trans: "extends s s' \<Longrightarrow> extends s' s'' \<Longrightarrow> extends s s''"
  by (auto simp: extends_def)

lemma extends_nth: "extends s s' \<Longrightarrow> a < length s \<Longrightarrow> a < length s' \<and> s' ! a = s ! a"
  by (auto simp: extends_def)

lemma h_simulate_dropE:
  assumes "board < length s"
  obtains (none) "h_simulate_drop s board col p = (s, None)"
      "simulate_drop (s ! board) col p = None"
    | (some) s' tmp r where "h_simulate_drop s board col p = (s', Some (tmp, r))"
      "extends s s'" "tmp < length s'" "simulate_drop (s ! board) col p = Some (s' ! tmp, r)"
proof (cases "check_available_row (s ! board) col")
  case None
  then show ?thesis
    by (intro none) (simp_all add: h_simulate_drop_def simulate_drop_def)
next
  case (Some r)
  let ?s' = "s @ [set_cell (s ! board) r col p]"
  have 1: "h_simulate_drop s board col p = (?s', Some (length s, r))"
    using Some assms by (simp add: h_simulate_drop_def h_copy_def h_place_piece_def nth_append)
  have 2: "extends s ?s'" by (simp add: extends_def nth_append)
  have 3: "simulate_drop (s ! board) col p = Some (?s' ! length s, r)"
    using Some by (simp add: simulate_drop_def place_piece_def)
  show ?thesis by (rule some[OF 1 2 _ 3]) simp
qed

lemma h_find_win_spec:
  "board < length s \<Longrightarrow>
   extends s (fst (h_find_win s board side cs)) \<and>
   snd (h_find_win s board side cs) = find (wins_at (s ! board) side) cs"
proof (induction cs arbitrary: s)
  case Nil
  then show ?case by (simp add: extends_refl)
next
  case (Cons c cs)
  from Cons.prems show ?case
  proof (cases rule: h_simulate_dropE[of board s c side])
    case none
    then show ?thesis using Cons.IH[OF Cons.prems] by (simp add: wins_at_def)
  next
    case (some s' tmp r)
    have b: "board < length s'" "s' ! board = s ! board"
      using extends_nth[OF some(2) Cons.prems] by simp_all
    have w: "wins_at (s ! board) side c = check_win (s' ! tmp) r c"
      using some(4) by (simp add: wins_at_def)
    show ?thesis
    proof (cases "check_win (s' ! tmp) r c")
      case True
      then show ?thesis using some(1,2) w by simp
    next
      case False
      then show ?thesis
        using some(1) w Cons.IH[OF b(1)] extends_trans[OF some(2)] b(2) by simp
    qed
  qed
qed

lemma h_winning_moves_loop_spec:
  "board < length s \<Longrightarrow>
   extends s (fst (h_winning_moves_loop s board side cs wins)) \<and>
   snd (h_winning_moves_loop s board side cs wins) = wins @ filter (wins_at (s ! board) side) cs"
proof (induction cs arbitrary: s wins)
  case Nil
  then show ?case by (simp add: extends_refl)
next
  case (Cons c cs)
  from Cons.prems show ?case
  proof (cases rule: h_simulate_dropE[of board s c side])
    case none
    then show ?thesis using Cons.IH[OF Cons.prems] by (simp add: wins_at_def)
  next
    case (some s' tmp r)
    have b: "board < length s'" "s' ! board = s ! board"
      using extends_nth[OF some(2) Cons.prems] by simp_all
    have w: "wins_at (s ! board) side c = check_win (s' ! tmp) r c"
      using some(4) by (simp add: wins_at_def)
    show ?thesis
      using some(1) w Cons.IH[OF b(1)] extends_trans[OF some(2)] b(2) by simp
  qed
qed

lemma h_winning_moves_spec:
  "board < length s \<Longrightarrow>
   extends s (fst (h_winning_moves s board side)) \<and>
   snd (h_winning_moves s board side) = winning_moves (s ! board) side"
  using h_winning_moves_loop_spec[of board s side "valid_locations (s ! board)" "[]"]
  by (simp add: h_winning_moves_def winning_moves_def)

lemma h_max_loop_spec:
  assumes rec: "\<And>s tmp a be g. tmp < length s \<Longrightarrow>
      extends s (fst (rec s tmp a be g)) \<and> snd (rec s tmp a be g) = prec (s ! tmp) a be g"
  shows "board < length s \<Longrightarrow>
   extends s (fst (h_max_loop rec s board cs alpha beta v b g)) \<and>
   snd (h_max_loop rec s board cs alpha beta v b g) = max_loop prec (s ! board) cs alpha beta v b g"
proof (induction cs arbitrary: s alpha v b g)
  case Nil
  then show ?case by (simp add: extends_refl)
next
  case (Cons c cs)
  from Cons.prems show ?case
  proof (cases rule: h_simulate_dropE[of board s c COMPUTER])
    case none
    then show ?thesis by (simp add: extends_refl)
  next
    case (some s' tmp r)
    obtain s2 res where rr: "rec s' tmp alpha beta g = (s2, res)"
      by (cases "rec s' tmp alpha beta g")
    have e2: "extends s' s2" and pr: "prec (s' ! tmp) alpha beta g = res"
      using rec[OF some(3), of alpha beta g] rr by simp_all
    have e: "extends s s2" by (rule extends_trans[OF some(2) e2])
    have b: "board < length s2" "s2 ! board = s ! board"
      using extends_nth[OF e Cons.prems] by simp_all
    show ?thesis
    proof (cases res)
      case (Inl x)
      then show ?thesis using some(1,4) rr pr e by simp
    next
      case (Inr t)
      obtain ns col g' where t: "t = (ns, col, g')" by (cases t)
      define v' where "v' = (if v < ns then ns else v)"
      define b' where "b' = (if v < ns then Some c else b)"
      have l: "h_max_loop rec s board (c # cs) alpha beta v b g =
          (if beta \<le> max alpha v' then (s2, Inr (v', b', g'))
           else h_max_loop rec s2 board cs (max alpha v') beta v' b' g')"
        using some(1) rr Inr t by (simp add: v'_def b'_def)
      have r: "max_loop prec (s ! board) (c # cs) alpha beta v b g =
          (if beta \<le> max alpha v' then Inr (v', b', g')
           else max_loop prec (s ! board) cs (max alpha v') beta v' b' g')"
        using some(4) pr Inr t by (simp add: v'_def b'_def)
      show ?thesis
      proof (cases "beta \<le> max alpha v'")
        case True
        then show ?thesis unfolding l r using e by simp
      next
        case False
        then show ?thesis unfolding l r
          using Cons.IH[OF b(1), of "max alpha v'" v' b' g'] extends_trans[OF e] b(2) by simp
      qed
    qed
  qed
qed

lemma h_min_loop_spec:
  assumes rec: "\<And>s tmp a be g. tmp < length s \<Longrightarrow>
      extends s (fst (rec s tmp a be g)) \<and> snd (rec s tmp a be g) = prec (s ! tmp) a be g"
  shows "board < length s \<Longrightarrow>
   extends s (fst (h_min_loop rec s board cs alpha beta v b g)) \<and>
   snd (h_min_loop rec s board cs alpha beta v b g) = min_loop prec (s ! board) cs alpha beta v b g"
proof (induction cs arbitrary: s beta v b g)
  case Nil
  then show ?case by (simp add: extends_refl)
next
  case (Cons c cs)
  from Cons.prems show ?case
  proof (cases rule: h_simulate_dropE[of board s c PLAYER])
    case none
    then show ?thesis by (simp add: extends_refl)
  next
    case (some s' tmp r)
    obtain s2 res where rr: "rec s' tmp alpha beta g = (s2, res)"
      by (cases "rec s' tmp alpha beta g")
    have e2: "extends s' s2" and pr: "prec (s' ! tmp) alpha beta g = res"
      using rec[OF some(3), of alpha beta g] rr by simp_all
    have e: "extends s s2" by (rule extends_trans[OF some(2) e2])
    have b: "board < length s2" "s2 ! board = s ! board"
      using extends_nth[OF e Cons.prems] by simp_all
    show ?thesis
    proof (cases res)
      case (Inl x)
      then show ?thesis using some(1,4) rr pr e by simp
    next
      case (Inr t)
      obtain ns col g' where t: "t = (ns, col, g')" by (cases t)
      define v' where "v' = (if ns < v then ns else v)"
      define b' where "b' = (if ns < v then Some c else b)"
      have l: "h_min_loop rec s board (c # cs) alpha beta v b g =
          (if min beta v' \<le> alpha then (s2, Inr (v', b', g'))
           else h_min_loop rec s2 board cs alpha (min beta v') v' b' g')"
        using some(1) rr Inr t by (simp add: v'_def b'_def)
      have r: "min_loop prec (s ! board) (c # cs) alpha beta v b g =
          (if min beta v' \<le> alpha then Inr (v', b', g')
           else min_loop prec (s ! board) cs alpha (min beta v') v' b' g')"
        using some(4) pr Inr t by (simp add: v'_def b'_def)
      show ?thesis
      proof (cases "min beta v' \<le> alpha")
        case True
        then show ?thesis unfolding l r using e by simp
      next
        case False
        then show ?thesis unfolding l r
          using Cons.IH[OF b(1), of "min beta v'" v' b' g'] extends_trans[OF e] b(2) by simp
      qed
    qed
  qed
qed

lemma h_minimax_node_max:
  "h_minimax_node rec s board alpha beta True g =
     (case h_find_win s board COMPUTER (ordered_moves (s ! board)) of
        (s1, Some c) \<Rightarrow> (s1, Inr (PosInf, Some c, g))
      | (s1, None) \<Rightarrow>
          (case h_max_loop (\<lambda>s tmp alpha beta g. rec s tmp alpha beta False g)
                  s1 board (ordered_moves (s ! board)) alpha beta NegInf None g of
             (s2, res) \<Rightarrow> (s2, pick_column (valid_locations (s ! board)) res)))"
  unfolding h_minimax_node_def ordered_columns_returns ordered_moves_def Let_def
  by (simp only: option.case if_True if_False)

lemma h_minimax_node_min:
  "h_minimax_node rec s board alpha beta False g =
     (case h_find_win s board PLAYER (ordered_moves (s ! board)) of
        (s1, Some c) \<Rightarrow> (s1, Inr (NegInf, Some c, g))
      | (s1, None) \<Rightarrow>
          (case h_min_loop (\<lambda>s tmp alpha beta g. rec s tmp alpha beta True g)
                  s1 board (ordered_moves (s ! board)) alpha beta PosInf None g of
             (s2, res) \<Rightarrow> (s2, pick_column (valid_locations (s ! board)) res)))"
  unfolding h_minimax_node_def ordered_columns_returns ordered_moves_def Let_def
  by (simp only: option.case if_True if_False)

lemma h_minimax_node_spec:
  assumes rec: "\<And>s tmp a be m g. tmp < length s \<Longrightarrow>
      extends s (fst (rec s tmp a be m g)) \<and> snd (rec s tmp a be m g) = prec (s ! tmp) a be m g"
    and b: "board < length s"
  shows "extends s (fst (h_minimax_node rec s board alpha beta maximizing g)) \<and>
   snd (h_minimax_node rec s board alpha beta maximizing g) =
     minimax_node prec (s ! board) alpha beta maximizing g"
proof -
  define order where "order = ordered_moves (s ! board)"
  define valid where "valid = valid_locations (s ! board)"
  show ?thesis
  proof (cases maximizing)
    case True
    then have m: "maximizing = True" by simp
    obtain s1 w where fw: "h_find_win s board COMPUTER order = (s1, w)"
      by (cases "h_find_win s board COMPUTER order")
    have e1: "extends s s1" and w: "find (wins_at (s ! board) COMPUTER) order = w"
      using h_find_win_spec[OF b, of COMPUTER order] fw by simp_all
    have b1: "board < length s1" "s1 ! board = s ! board"
      using extends_nth[OF e1 b] by simp_all
    let ?r = "\<lambda>s tmp alpha beta g. rec s tmp alpha beta False g"
    let ?p = "\<lambda>tmp alpha beta g. prec tmp alpha beta False g"
    obtain s2 res where ml: "h_max_loop ?r s1 board order alpha beta NegInf None g = (s2, res)"
      by (cases "h_max_loop ?r s1 board order alpha beta NegInf None g")
    have "extends s1 s2 \<and> max_loop ?p (s1 ! board) order alpha beta NegInf None g = res"
      using h_max_loop_spec[of ?r ?p board s1 order alpha beta NegInf None g, OF rec b1(1)] ml
      by simp
    then have e2: "extends s s2"
      and pr: "max_loop ?p (s ! board) order alpha beta NegInf None g = res"
      using extends_trans[OF e1] b1(2) by simp_all
    have l: "h_minimax_node rec s board alpha beta True g =
        (case w of Some c \<Rightarrow> (s1, Inr (PosInf, Some c, g))
         | None \<Rightarrow> (s2, pick_column valid res))"
      unfolding h_minimax_node_max order_def[symmetric] valid_def[symmetric] fw prod.case ml
      by (simp split: option.split)
    have r: "minimax_node prec (s ! board) alpha beta True g =
        (case w of Some c \<Rightarrow> Inr (PosInf, Some c, g)
         | None \<Rightarrow> pick_column valid res)"
      unfolding minimax_node_max order_def[symmetric] valid_def[symmetric] w pr ..
    show ?thesis unfolding m l r using e1 e2 by (simp split: option.split)
  next
    case False
    then have m: "maximizing = False" by simp
    obtain s1 w where fw: "h_find_win s board PLAYER order = (s1, w)"
      by (cases "h_find_win s board PLAYER order")
    have e1: "extends s s1" and w: "find (wins_at (s ! board) PLAYER) order = w"
      using h_find_win_spec[OF b, of PLAYER order] fw by simp_all
    have b1: "board < length s1" "s1 ! board = s ! board"
      using extends_nth[OF e1 b] by simp_all
    let ?r = "\<lambda>s tmp alpha beta g. rec s tmp alpha beta True g"
    let ?p = "\<lambda>tmp alpha beta g. prec tmp alpha beta True g"
    obtain s2 res where ml: "h_min_loop ?r s1 board order alpha beta PosInf None g = (s2, res)"
      by (cases "h_min_loop ?r s1 board order alpha beta PosInf None g")
    have "extends s1 s2 \<and> min_loop ?p (s1 ! board) order alpha beta PosInf None g = res"
      using h_min_loop_spec[of ?r ?p board s1 order alpha beta PosInf None g, OF rec b1(1)] ml
      by simp
    then have e2: "extends s s2"
      and pr: "min_loop ?p (s ! board) order alpha beta PosInf None g = res"
      using extends_trans[OF e1] b1(2) by simp_all
    have l: "h_minimax_node rec s board alpha beta False g =
        (case w of Some c \<Rightarrow> (s1, Inr (NegInf, Some c, g))
         | None \<Rightarrow> (s2, pick_column valid res))"
      unfolding h_minimax_node_min order_def[symmetric] valid_def[symmetric] fw prod.case ml
      by (simp split: option.split)
    have r: "minimax_node prec (s ! board) alpha beta False g =
        (case w of Some c \<Rightarrow> Inr (NegInf, Some c, g)
         | None \<Rightarrow> pick_column valid res)"
      unfolding minimax_node_min order_def[symmetric] valid_def[symmetric] w pr ..
    show ?thesis unfolding m l r using e1 e2 by (simp split: option.split)
  qed
qed

lemma h_minimax_spec:
  "board < length s \<Longrightarrow>
   extends s (fst (h_minimax s board depth alpha beta maximizing g)) \<and>
   snd (h_minimax s board depth alpha beta maximizing g) =
     minimax (s ! board) depth alpha beta maximizing g"
proof (induction depth arbitrary: s board alpha beta maximizing g)
  case 0
  then show ?case
    by (simp add: h_minimax.simps[of s board 0] minimax.simps[of _ 0] extends_refl)
next
  case (Suc d)
  show ?case
  proof (cases "fst (is_terminal (s ! board))")
    case True
    then show ?thesis
      by (simp add: h_minimax.simps[of s board "Suc d"] minimax.simps[of _ "Suc d"] extends_refl)
  next
    case False
    have l: "h_minimax s board (Suc d) alpha beta maximizing g =
        h_minimax_node (\<lambda>s tmp alpha beta maximizing g. h_minimax s tmp d alpha beta maximizing g)
          s board alpha beta maximizing g"
      using False by (subst h_minimax.simps) simp
    have r: "minimax (s ! board) (Suc d) alpha beta maximizing g =
        minimax_node (\<lambda>tmp alpha beta maximizing g. minimax tmp d alpha beta maximizing g)
          (s ! board) alpha beta maximizing g"
      using False by (subst minimax.simps) simp
    show ?thesis unfolding l r
      by (rule h_minimax_node_spec[OF Suc.IH Suc.prems])
  qed
qed

lemma h_ai_best_move_spec:
  assumes b: "board < length s"
  shows "extends s (fst (h_ai_best_move s board g)) \<and>
   snd (h_ai_best_move s board g) = ai_best_move (s ! board) g"
proof -
  obtain s1 w1 where w1: "h_winning_moves s board COMPUTER = (s1, w1)"
    by (cases "h_winning_moves s board COMPUTER")
  have e1: "extends s s1" and p1: "winning_moves (s ! board) COMPUTER = w1"
    using h_winning_moves_spec[OF b, of COMPUTER] w1 by simp_all
  have b1: "board < length s1" "s1 ! board = s ! board"
    using extends_nth[OF e1 b] by simp_all
  obtain s2 w2 where w2: "h_winning_moves s1 board PLAYER = (s2, w2)"
    by (cases "h_winning_moves s1 board PLAYER")
  have e2: "extends s s2" and p2: "winning_moves (s ! board) PLAYER = w2"
    using h_winning_moves_spec[OF b1(1), of PLAYER] w2 extends_trans[OF e1] b1(2) by simp_all
  have b2: "board < length s2" "s2 ! board = s ! board"
    using extends_nth[OF e2 b] by simp_all
  obtain s3 res where mm: "h_minimax s2 board AI_DEPTH NegInf PosInf True g = (s3, res)"
    by (cases "h_minimax s2 board AI_DEPTH NegInf PosInf True g")
  have e3: "extends s s3" and p3: "minimax (s ! board) AI_DEPTH NegInf PosInf True g = res"
    using h_minimax_spec[OF b2(1), of AI_DEPTH NegInf PosInf True g] mm extends_trans[OF e2] b2(2)
    by simp_all
  have b3: "s3 ! board = s ! board"
    using extends_nth[OF e3 b] by simp
  have l: "h_ai_best_move s board g =
      (if w1 \<noteq> [] then (s1, Inr (w1 ! 0, g))
       else if w2 \<noteq> [] then (s2, Inr (w2 ! 0, g))
       else (case res of Inl e \<Rightarrow> (s3, Inl e)
             | Inr (_, col, g') \<Rightarrow>
                (case col of Some c \<Rightarrow> (s3, Inr (c, g'))
                 | None \<Rightarrow> (s3, random_choice g' (valid_locations (s ! board))))))"
    unfolding h_ai_best_move_def w1 Let_def prod.case w2 mm b3 ..
  have r: "ai_best_move (s ! board) g =
      (if w1 \<noteq> [] then Inr (w1 ! 0, g)
       else if w2 \<noteq> [] then Inr (w2 ! 0, g)
       else (case res of Inl e \<Rightarrow> Inl e
             | Inr (_, col, g') \<Rightarrow>
                (case col of Some c \<Rightarrow> Inr (c, g')
                 | None \<Rightarrow> random_choice g' (valid_locations (s ! board)))))"
    unfolding ai_best_move_def p1 Let_def p2 p3 ..
  show ?thesis unfolding l r using e1 e2 e3
    by (simp split: sum.split prod.split option.split)
qed

text \<open>
  C10: a call of \<open>minimax\<close>, for every board, depth, window and side, and a call of
  \<open>ai_best_move\<close>, leave the board of the caller as it was. In the store after the call
  the array at the address of the caller's board holds the same cells as before, and so does
  every other array that existed before the call: the drops of the search are written to
  arrays allocated during the call, the copies made by \<open>simulate_drop\<close>. The value
  returned is the one of the search on board values.
\<close>

theorem search_leaves_board_unchanged:
  assumes "board < length s"
  shows "fst (h_minimax s board depth alpha beta maximizing g) ! board = s ! board \<and>
         extends s (fst (h_minimax s board depth alpha beta maximizing g)) \<and>
         snd (h_minimax s board depth alpha beta maximizing g) =
           minimax (s ! board) depth alpha beta maximizing g \<and>
         fst (h_ai_best_move s board g) ! board = s ! board \<and>
         extends s (fst (h_ai_best_move s board g)) \<and>
         snd (h_ai_best_move s board g) = ai_best_move (s ! board) g"
  using h_minimax_spec[OF assms, of depth alpha beta maximizing g]
    h_ai_best_move_spec[OF assms, of g] extends_nth[OF _ assms]
  by simp

theorem search_leaves_board_unchanged_witness:
  "(0::nat) < length [create_board] \<and>
   fst (h_minimax [create_board] 0 1 NegInf PosInf True (\<lambda>_. 0)) ! 0 = create_board \<and>
   snd (h_minimax [create_board] 0 1 NegInf PosInf True (\<lambda>_. 0)) =
     minimax create_board 1 NegInf PosInf True (\<lambda>_. 0) \<and>
   fst (h_ai_best_move [create_board] 0 (\<lambda>_. 0)) ! 0 = create_board \<and>
   snd (h_ai_best_move [create_board] 0 (\<lambda>_. 0)) = ai_best_move create_board (\<lambda>_. 0)"
proof -
  have 1: "(0::nat) < length [create_board]" by simp
  from search_leaves_board_unchanged[OF 1,
      where depth = 1 and alpha = NegInf and beta = PosInf and maximizing = True and g = "\<lambda>_. 0"]
  show ?thesis by simp
qed

end
